theory Spec2Isabelle
  imports Complex_Main "HOL-Library.Word" "HOL-Library.Signed_Division"
begin

unbundle bit_operations_syntax

section \<open>Component types and component values\<close>

text \<open>
  The C++ component types the templates of \<open>DataReshaper\<close> are instantiated with:
  \<open>uint8_t\<close>, \<open>uint16_t\<close>, \<open>int32_t\<close>, \<open>uint32_t\<close> and \<open>float\<close>. A value of a component
  type carries its bits; a \<open>float\<close> is kept as its IEEE-754 binary32 bit pattern.
\<close>

datatype ctype = U8 | U16 | I32 | U32 | F32

datatype cval =
    VU8 "8 word"
  | VU16 "16 word"
  | VI32 "32 word"
  | VU32 "32 word"
  | VF32 "32 word"

fun sizeof :: "ctype \<Rightarrow> nat" where
  "sizeof U8 = 1"
| "sizeof U16 = 2"
| "sizeof I32 = 4"
| "sizeof U32 = 4"
| "sizeof F32 = 4"

fun type_of :: "cval \<Rightarrow> ctype" where
  "type_of (VU8 w) = U8"
| "type_of (VU16 w) = U16"
| "type_of (VI32 w) = I32"
| "type_of (VU32 w) = U32"
| "type_of (VF32 w) = F32"

text \<open>
  The real number a binary32 bit pattern stands for (\<open>None\<close> for infinities and NaNs):
  sign bit 31, biased exponent in bits 30..23, fraction in bits 22..0.
\<close>

definition f32_real :: "32 word \<Rightarrow> real option" where
  "f32_real w =
     (let s = (if bit w 31 then - 1 else 1 :: real);
          e = unat (drop_bit 23 w AND 0xFF);
          f = unat (w AND 0x7FFFFF)
      in if e = 255 then None
         else if e = 0 then Some (s * (real f / 2 ^ 23) * 2 powi (- 126))
         else Some (s * (1 + real f / 2 ^ 23) * 2 powi (int e - 127)))"

section \<open>The maximum-value table\<close>

text \<open>
  \<open>getMaxValue<T>()\<close> of the newer header: \<open>1.0f\<close> (bits \<open>0x3F800000\<close>), \<open>0x7fffffff\<close>,
  \<open>0xffffffff\<close>, \<open>0x3c00\<close>, \<open>0xff\<close>, each of the type asked for.
\<close>

fun getMaxValue :: "ctype \<Rightarrow> cval" where
  "getMaxValue F32 = VF32 0x3F800000"
| "getMaxValue I32 = VI32 0x7fffffff"
| "getMaxValue U32 = VU32 0xffffffff"
| "getMaxValue U16 = VU16 0x3c00"
| "getMaxValue U8 = VU8 0xff"

text \<open>\<open>getDefaultAlpha<T>()\<close> of the older header \<open>DataReshaper.h\<close>.\<close>

fun getDefaultAlpha :: "ctype \<Rightarrow> cval" where
  "getDefaultAlpha F32 = VF32 0x3F800000"
| "getDefaultAlpha I32 = VI32 0x7fffffff"
| "getDefaultAlpha U32 = VU32 0xffffffff"
| "getDefaultAlpha U16 = VU16 0x3c00"
| "getDefaultAlpha U8 = VU8 0xff"

section \<open>Memory\<close>

text \<open>
  One byte-addressed store holds both buffers, so that source and destination may
  overlap as the C++ pointers may. A component is stored in \<open>sizeof\<close> consecutive
  bytes, least significant byte first. Addresses and \<open>size_t\<close> quantities are natural
  numbers.
\<close>

type_synonym byte = "8 word"
type_synonym memory = "nat \<Rightarrow> byte"

primrec le_bytes :: "nat \<Rightarrow> 'a::len word \<Rightarrow> byte list" where
  "le_bytes 0 w = []"
| "le_bytes (Suc n) w = ucast w # le_bytes n (drop_bit 8 w)"

primrec le_word :: "byte list \<Rightarrow> 'a::len word" where
  "le_word [] = 0"
| "le_word (b # bs) = ucast b OR push_bit 8 (le_word bs)"

fun encode :: "cval \<Rightarrow> byte list" where
  "encode (VU8 w) = le_bytes 1 w"
| "encode (VU16 w) = le_bytes 2 w"
| "encode (VI32 w) = le_bytes 4 w"
| "encode (VU32 w) = le_bytes 4 w"
| "encode (VF32 w) = le_bytes 4 w"

fun decode :: "ctype \<Rightarrow> byte list \<Rightarrow> cval" where
  "decode U8 bs = VU8 (le_word bs)"
| "decode U16 bs = VU16 (le_word bs)"
| "decode I32 bs = VI32 (le_word bs)"
| "decode U32 bs = VU32 (le_word bs)"
| "decode F32 bs = VF32 (le_word bs)"

definition read_bytes :: "memory \<Rightarrow> nat \<Rightarrow> nat \<Rightarrow> byte list" where
  "read_bytes m a n = map m [a..<a + n]"

primrec write_bytes :: "memory \<Rightarrow> nat \<Rightarrow> byte list \<Rightarrow> memory" where
  "write_bytes m a [] = m"
| "write_bytes m a (b # bs) = write_bytes (m(a := b)) (Suc a) bs"

text \<open>\<open>*(const T*) a\<close> and \<open>*(T*) a = v\<close>.\<close>

definition load :: "ctype \<Rightarrow> memory \<Rightarrow> nat \<Rightarrow> cval" where
  "load t m a = decode t (read_bytes m a (sizeof t))"

definition store :: "memory \<Rightarrow> nat \<Rightarrow> cval \<Rightarrow> memory" where
  "store m a v = write_bytes m a (encode v)"

section \<open>C++ arithmetic on component values\<close>

text \<open>
  An operand after the integral promotions: \<open>uint8_t\<close> and \<open>uint16_t\<close> become \<open>int\<close>,
  \<open>int32_t\<close> stays \<open>int\<close>, \<open>uint32_t\<close> stays \<open>unsigned int\<close>, \<open>float\<close> stays \<open>float\<close>.
  An \<open>int\<close> is kept as its mathematical value, so that signed overflow is visible.
\<close>

datatype num = NInt int | NUns "32 word" | NFlt "32 word"

fun promote :: "cval \<Rightarrow> num" where
  "promote (VU8 w) = NInt (uint w)"
| "promote (VU16 w) = NInt (uint w)"
| "promote (VI32 w) = NInt (sint w)"
| "promote (VU32 w) = NUns w"
| "promote (VF32 w) = NFlt w"

text \<open>
  Single-precision arithmetic is a parameter: multiplication, division, the conversion
  of an integer to \<open>float\<close> and the truncation of a \<open>float\<close> towards zero (\<open>None\<close> for
  an infinity or a NaN).
\<close>

record float_ops =
  fmul :: "32 word \<Rightarrow> 32 word \<Rightarrow> 32 word"
  fdiv :: "32 word \<Rightarrow> 32 word \<Rightarrow> 32 word"
  f_of_int :: "int \<Rightarrow> 32 word"
  f_trunc :: "32 word \<Rightarrow> int option"

definition int_range :: "int \<Rightarrow> bool" where
  "int_range i \<longleftrightarrow> - (2 ^ 31) \<le> i \<and> i < 2 ^ 31"

text \<open>
  \<open>a * b\<close> under the usual arithmetic conversions. With a \<open>float\<close> operand the other
  one is converted to \<open>float\<close>; otherwise with an \<open>unsigned int\<close> operand the other one
  is converted to \<open>unsigned int\<close> and the product wraps modulo \<open>2^32\<close>; the product of
  two \<open>int\<close>s that does not fit an \<open>int\<close> is undefined behaviour (\<open>None\<close>).
\<close>

fun cmul :: "float_ops \<Rightarrow> num \<Rightarrow> num \<Rightarrow> num option" where
  "cmul fo (NFlt a) (NFlt b) = Some (NFlt (fmul fo a b))"
| "cmul fo (NFlt a) (NInt j) = Some (NFlt (fmul fo a (f_of_int fo j)))"
| "cmul fo (NFlt a) (NUns w) = Some (NFlt (fmul fo a (f_of_int fo (uint w))))"
| "cmul fo (NInt i) (NFlt b) = Some (NFlt (fmul fo (f_of_int fo i) b))"
| "cmul fo (NUns v) (NFlt b) = Some (NFlt (fmul fo (f_of_int fo (uint v)) b))"
| "cmul fo (NUns v) (NUns w) = Some (NUns (v * w))"
| "cmul fo (NUns v) (NInt j) = Some (NUns (v * word_of_int j))"
| "cmul fo (NInt i) (NUns w) = Some (NUns (word_of_int i * w))"
| "cmul fo (NInt i) (NInt j) = (if int_range (i * j) then Some (NInt (i * j)) else None)"

text \<open>
  \<open>a / b\<close>: integer division truncates towards zero; dividing an integer by zero, and
  an \<open>int\<close> quotient that does not fit, are undefined behaviour.
\<close>

fun cdiv :: "float_ops \<Rightarrow> num \<Rightarrow> num \<Rightarrow> num option" where
  "cdiv fo (NFlt a) (NFlt b) = Some (NFlt (fdiv fo a b))"
| "cdiv fo (NFlt a) (NInt j) = Some (NFlt (fdiv fo a (f_of_int fo j)))"
| "cdiv fo (NFlt a) (NUns w) = Some (NFlt (fdiv fo a (f_of_int fo (uint w))))"
| "cdiv fo (NInt i) (NFlt b) = Some (NFlt (fdiv fo (f_of_int fo i) b))"
| "cdiv fo (NUns v) (NFlt b) = Some (NFlt (fdiv fo (f_of_int fo (uint v)) b))"
| "cdiv fo (NUns v) (NUns w) = (if w = 0 then None else Some (NUns (v div w)))"
| "cdiv fo (NUns v) (NInt j) =
     (if (word_of_int j :: 32 word) = 0 then None else Some (NUns (v div word_of_int j)))"
| "cdiv fo (NInt i) (NUns w) = (if w = 0 then None else Some (NUns (word_of_int i div w)))"
| "cdiv fo (NInt i) (NInt j) =
     (if j \<noteq> 0 \<and> int_range (i sdiv j) then Some (NInt (i sdiv j)) else None)"

text \<open>
  The conversion of the quotient to the destination component type on assignment.
  Integer to integer is modular; \<open>float\<close> to integer truncates and is undefined
  behaviour when the truncated value is not representable.
\<close>

fun assign :: "float_ops \<Rightarrow> ctype \<Rightarrow> num \<Rightarrow> cval option" where
  "assign fo U8 (NInt i) = Some (VU8 (word_of_int i))"
| "assign fo U8 (NUns w) = Some (VU8 (ucast w))"
| "assign fo U8 (NFlt f) =
     (case f_trunc fo f of None \<Rightarrow> None
      | Some i \<Rightarrow> if 0 \<le> i \<and> i < 2 ^ 8 then Some (VU8 (word_of_int i)) else None)"
| "assign fo U16 (NInt i) = Some (VU16 (word_of_int i))"
| "assign fo U16 (NUns w) = Some (VU16 (ucast w))"
| "assign fo U16 (NFlt f) =
     (case f_trunc fo f of None \<Rightarrow> None
      | Some i \<Rightarrow> if 0 \<le> i \<and> i < 2 ^ 16 then Some (VU16 (word_of_int i)) else None)"
| "assign fo I32 (NInt i) = Some (VI32 (word_of_int i))"
| "assign fo I32 (NUns w) = Some (VI32 w)"
| "assign fo I32 (NFlt f) =
     (case f_trunc fo f of None \<Rightarrow> None
      | Some i \<Rightarrow> if int_range i then Some (VI32 (word_of_int i)) else None)"
| "assign fo U32 (NInt i) = Some (VU32 (word_of_int i))"
| "assign fo U32 (NUns w) = Some (VU32 w)"
| "assign fo U32 (NFlt f) =
     (case f_trunc fo f of None \<Rightarrow> None
      | Some i \<Rightarrow> if 0 \<le> i \<and> i < 2 ^ 32 then Some (VU32 (word_of_int i)) else None)"
| "assign fo F32 (NInt i) = Some (VF32 (f_of_int fo i))"
| "assign fo F32 (NUns w) = Some (VF32 (f_of_int fo (uint w)))"
| "assign fo F32 (NFlt f) = Some (VF32 f)"

text \<open>
  The right-hand side of line 77 of the newer header, converted to the destination type:
  \<open>in[inds[channel]] * dstMaxValue / srcMaxValue\<close>, where \<open>v\<close> is the source component
  read, \<open>dstMaxValue\<close> has the destination type and \<open>srcMaxValue\<close> the source type.
\<close>

definition rescale :: "float_ops \<Rightarrow> ctype \<Rightarrow> ctype \<Rightarrow> cval \<Rightarrow> cval option" where
  "rescale fo dT sT v =
     (case cmul fo (promote v) (promote (getMaxValue dT)) of
        None \<Rightarrow> None
      | Some p \<Rightarrow>
          (case cdiv fo p (promote (getMaxValue sT)) of
             None \<Rightarrow> None
           | Some q \<Rightarrow> assign fo dT q))"

text \<open>Conversions between \<open>int\<close> (32 bits) and \<open>size_t\<close> (64 bits).\<close>

definition to_int :: "nat \<Rightarrow> int" where
  "to_int n = sint (word_of_nat n :: 32 word)"

definition to_size_t :: "int \<Rightarrow> nat" where
  "to_size_t i = nat (i mod 2 ^ 64)"

section \<open>The generic channel reshape\<close>

text \<open>
  \<open>DataReshaper::reshape<componentType, srcChannelCount, dstChannelCount>\<close>. The first
  inner loop copies \<open>out[channel] = in[channel]\<close>, the second writes \<open>maxValue\<close>, and the
  outer loop advances \<open>in\<close> and \<open>out\<close> by one pixel each.
\<close>

function reshape_copy :: "ctype \<Rightarrow> nat \<Rightarrow> nat \<Rightarrow> nat \<Rightarrow> nat \<Rightarrow> memory \<Rightarrow> memory" where
  "reshape_copy cT inp outp channel minChannelCount m =
     (if channel < minChannelCount
      then reshape_copy cT inp outp (Suc channel) minChannelCount
             (store m (outp + channel * sizeof cT) (load cT m (inp + channel * sizeof cT)))
      else m)"
  by pat_completeness auto
termination
  by (relation "measure (\<lambda>(cT, inp, outp, channel, n, m). n - channel)") auto

function fill_channels :: "ctype \<Rightarrow> cval \<Rightarrow> nat \<Rightarrow> nat \<Rightarrow> nat \<Rightarrow> memory \<Rightarrow> memory" where
  "fill_channels cT maxValue outp channel dstChannelCount m =
     (if channel < dstChannelCount
      then fill_channels cT maxValue outp (Suc channel) dstChannelCount
             (store m (outp + channel * sizeof cT) maxValue)
      else m)"
  by pat_completeness auto
termination
  by (relation "measure (\<lambda>(cT, v, outp, channel, n, m). n - channel)") auto

function reshape_words ::
  "ctype \<Rightarrow> nat \<Rightarrow> nat \<Rightarrow> nat \<Rightarrow> nat \<Rightarrow> nat \<Rightarrow> nat \<Rightarrow> nat \<Rightarrow> memory \<Rightarrow> memory" where
  "reshape_words cT srcChannelCount dstChannelCount minChannelCount word srcWordCount inp outp m =
     (if word < srcWordCount
      then reshape_words cT srcChannelCount dstChannelCount minChannelCount (Suc word) srcWordCount
             (inp + srcChannelCount * sizeof cT) (outp + dstChannelCount * sizeof cT)
             (fill_channels cT (getMaxValue cT) outp srcChannelCount dstChannelCount
                (reshape_copy cT inp outp 0 minChannelCount m))
      else m)"
  by pat_completeness auto
termination
  by (relation "measure (\<lambda>(cT, scc, dcc, mcc, word, n, inp, outp, m). n - word)") auto

text \<open>
  \<open>srcWordCount\<close> divides by the template argument \<open>srcChannelCount\<close>: with 0 the
  division is undefined behaviour (\<open>None\<close>). \<open>minChannelCount\<close> is declared \<open>int\<close> and
  compared with the \<open>size_t\<close> loop counter.
\<close>

definition reshape :: "ctype \<Rightarrow> nat \<Rightarrow> nat \<Rightarrow> nat \<Rightarrow> nat \<Rightarrow> nat \<Rightarrow> memory \<Rightarrow> memory option" where
  "reshape cT srcChannelCount dstChannelCount dest src numSrcBytes m =
     (if srcChannelCount = 0 then None
      else
        let srcWordCount = (numSrcBytes div sizeof cT) div srcChannelCount;
            minChannelCount = to_size_t (to_int (min srcChannelCount dstChannelCount))
        in Some (reshape_words cT srcChannelCount dstChannelCount minChannelCount
                   0 srcWordCount src dest m))"

section \<open>The image kernel of the newer header\<close>

text \<open>Line 70: \<open>inds[4] = {swizzle03 ? 2 : 0, 1, swizzle03 ? 0 : 2, 3}\<close>.\<close>

definition inds :: "bool \<Rightarrow> nat list" where
  "inds swizzle03 = [if swizzle03 then 2 else 0, 1, if swizzle03 then 0 else 2, 3]"

text \<open>Line 67: \<open>width = (srcBytesPerRow / sizeof(dstComponentType)) / srcChannelCount\<close>.\<close>

definition image_width :: "ctype \<Rightarrow> nat \<Rightarrow> nat" where
  "image_width dT srcBytesPerRow = (srcBytesPerRow div sizeof dT) div 4"

text \<open>
  Lines 75 to 78; \<open>None\<close> when the arithmetic of line 77 is undefined. The
  assertion of line 69 cannot fail, \<open>minChannelCount\<close> being \<open>min(4, dstChannelCount)\<close>,
  and \<open>inds\<close> is only read below index 4.
\<close>

function copy_channels ::
  "float_ops \<Rightarrow> ctype \<Rightarrow> ctype \<Rightarrow> bool \<Rightarrow> nat \<Rightarrow> nat \<Rightarrow> nat \<Rightarrow> nat \<Rightarrow> memory \<Rightarrow> memory option" where
  "copy_channels fo dT sT swizzle03 inp outp channel minChannelCount m =
     (if channel < minChannelCount
      then (case rescale fo dT sT (load sT m (inp + (inds swizzle03 ! channel) * sizeof sT)) of
              None \<Rightarrow> None
            | Some v \<Rightarrow>
                copy_channels fo dT sT swizzle03 inp outp (Suc channel) minChannelCount
                  (store m (outp + channel * sizeof dT) v))
      else Some m)"
  by pat_completeness auto
termination
  by (relation "measure (\<lambda>(fo, dT, sT, sw, inp, outp, channel, n, m). n - channel)") auto

text \<open>Lines 74 to 84: one row. \<open>srcChannelCount\<close> is the constant 4.\<close>

function image_columns ::
  "float_ops \<Rightarrow> ctype \<Rightarrow> ctype \<Rightarrow> bool \<Rightarrow> nat \<Rightarrow> nat \<Rightarrow> nat \<Rightarrow> nat \<Rightarrow> nat \<Rightarrow> memory \<Rightarrow> memory option" where
  "image_columns fo dT sT swizzle03 dstChannelCount column width inp outp m =
     (if column < width
      then (case copy_channels fo dT sT swizzle03 inp outp 0 (min 4 dstChannelCount) m of
              None \<Rightarrow> None
            | Some m' \<Rightarrow>
                image_columns fo dT sT swizzle03 dstChannelCount (Suc column) width
                  (inp + 4 * sizeof sT) (outp + dstChannelCount * sizeof dT)
                  (fill_channels dT (getMaxValue dT) outp 4 dstChannelCount m'))
      else Some m)"
  by pat_completeness auto
termination
  by (relation "measure (\<lambda>(fo, dT, sT, sw, dcc, column, n, inp, outp, m). n - column)") auto

text \<open>Lines 71 to 87: the rows, \<open>src\<close> and \<open>dest\<close> advancing by the row strides.\<close>

function image_rows ::
  "float_ops \<Rightarrow> ctype \<Rightarrow> ctype \<Rightarrow> bool \<Rightarrow> nat \<Rightarrow> nat \<Rightarrow> nat \<Rightarrow> nat \<Rightarrow> nat \<Rightarrow> nat \<Rightarrow> nat \<Rightarrow> nat
     \<Rightarrow> memory \<Rightarrow> memory option" where
  "image_rows fo dT sT swizzle03 dstChannelCount width srcBytesPerRow dstBytesPerRow row height
     src dest m =
     (if row < height
      then (case image_columns fo dT sT swizzle03 dstChannelCount 0 width src dest m of
              None \<Rightarrow> None
            | Some m' \<Rightarrow>
                image_rows fo dT sT swizzle03 dstChannelCount width srcBytesPerRow dstBytesPerRow
                  (Suc row) height (src + srcBytesPerRow) (dest + dstBytesPerRow) m')
      else Some m)"
  by pat_completeness auto
termination
  by (relation "measure (\<lambda>(fo, dT, sT, sw, dcc, w, sb, db, row, n, src, dest, m). n - row)") auto

text \<open>\<open>DataReshaper::reshapeImage<dstComponentType, srcComponentType>\<close>.\<close>

definition reshapeImage ::
  "float_ops \<Rightarrow> ctype \<Rightarrow> ctype \<Rightarrow> nat \<Rightarrow> nat \<Rightarrow> nat \<Rightarrow> nat \<Rightarrow> nat \<Rightarrow> nat \<Rightarrow> bool
     \<Rightarrow> memory \<Rightarrow> memory option" where
  "reshapeImage fo dT sT dest src srcBytesPerRow dstBytesPerRow dstChannelCount height swizzle03 m =
     image_rows fo dT sT swizzle03 dstChannelCount (image_width dT srcBytesPerRow)
       srcBytesPerRow dstBytesPerRow 0 height src dest m"

section \<open>The image kernel of the older header\<close>

text \<open>
  \<open>DataReshaper::reshapeImage<dstComponentType>\<close> of \<open>DataReshaper.h\<close>: source and
  destination have the same component type and line 73 copies
  \<open>out[channel] = in[inds[channel]]\<close> without arithmetic.
\<close>

function copy_channels_v1 :: "ctype \<Rightarrow> bool \<Rightarrow> nat \<Rightarrow> nat \<Rightarrow> nat \<Rightarrow> nat \<Rightarrow> memory \<Rightarrow> memory" where
  "copy_channels_v1 dT swizzle03 inp outp channel minChannelCount m =
     (if channel < minChannelCount
      then copy_channels_v1 dT swizzle03 inp outp (Suc channel) minChannelCount
             (store m (outp + channel * sizeof dT)
                (load dT m (inp + (inds swizzle03 ! channel) * sizeof dT)))
      else m)"
  by pat_completeness auto
termination
  by (relation "measure (\<lambda>(dT, sw, inp, outp, channel, n, m). n - channel)") auto

function image_columns_v1 ::
  "ctype \<Rightarrow> bool \<Rightarrow> nat \<Rightarrow> nat \<Rightarrow> nat \<Rightarrow> nat \<Rightarrow> nat \<Rightarrow> memory \<Rightarrow> memory" where
  "image_columns_v1 dT swizzle03 dstChannelCount column width inp outp m =
     (if column < width
      then image_columns_v1 dT swizzle03 dstChannelCount (Suc column) width
             (inp + 4 * sizeof dT) (outp + dstChannelCount * sizeof dT)
             (fill_channels dT (getDefaultAlpha dT) outp 4 dstChannelCount
                (copy_channels_v1 dT swizzle03 inp outp 0 (min 4 dstChannelCount) m))
      else m)"
  by pat_completeness auto
termination
  by (relation "measure (\<lambda>(dT, sw, dcc, column, n, inp, outp, m). n - column)") auto

function image_rows_v1 ::
  "ctype \<Rightarrow> bool \<Rightarrow> nat \<Rightarrow> nat \<Rightarrow> nat \<Rightarrow> nat \<Rightarrow> nat \<Rightarrow> nat \<Rightarrow> nat \<Rightarrow> nat \<Rightarrow> memory \<Rightarrow> memory" where
  "image_rows_v1 dT swizzle03 dstChannelCount width srcBytesPerRow dstBytesPerRow row height
     src dest m =
     (if row < height
      then image_rows_v1 dT swizzle03 dstChannelCount width srcBytesPerRow dstBytesPerRow
             (Suc row) height (src + srcBytesPerRow) (dest + dstBytesPerRow)
             (image_columns_v1 dT swizzle03 dstChannelCount 0 width src dest m)
      else m)"
  by pat_completeness auto
termination
  by (relation "measure (\<lambda>(dT, sw, dcc, w, sb, db, row, n, src, dest, m). n - row)") auto

definition reshapeImage_v1 ::
  "ctype \<Rightarrow> nat \<Rightarrow> nat \<Rightarrow> nat \<Rightarrow> nat \<Rightarrow> nat \<Rightarrow> nat \<Rightarrow> bool \<Rightarrow> memory \<Rightarrow> memory" where
  "reshapeImage_v1 dT dest src srcBytesPerRow dstBytesPerRow dstChannelCount height swizzle03 m =
     image_rows_v1 dT swizzle03 dstChannelCount (image_width dT srcBytesPerRow)
       srcBytesPerRow dstBytesPerRow 0 height src dest m"

section \<open>The dispatcher of the newer header\<close>

text \<open>
  Modelled from the spec: the declarations of \<open>PixelDataFormat\<close>, \<open>PixelDataType\<close> and
  \<open>PixelBufferDescriptor\<close> are not among the sources. The enumerations carry the tags the
  dispatcher names and one constructor for every other tag (\<open>PixelDataType::INT\<close> is written \<open>INT32\<close>, since
  \<open>INT\<close> is taken in HOL); the descriptor carries the
  fields the dispatcher reads (base pointer, format tag, type tag, optional stride,
  alignment).
\<close>

datatype PixelDataFormat = RGB | RGBA | OtherFormat nat

datatype PixelDataType = UBYTE | FLOAT | INT32 | UINT | OtherType nat

record PixelBufferDescriptor =
  pbd_buffer :: nat
  pbd_format :: PixelDataFormat
  pbd_type :: PixelDataType
  pbd_stride :: nat
  pbd_alignment :: nat

text \<open>Lines 93 to 97: the channel count of the destination format, or failure.\<close>

fun format_channels :: "PixelDataFormat \<Rightarrow> nat option" where
  "format_channels RGB = Some 3"
| "format_channels RGBA = Some 4"
| "format_channels (OtherFormat k) = None"

text \<open>
  Lines 101 to 140: the kernel instance chosen, as the pair of its template arguments
  (destination component type, source component type), or failure.
\<close>

definition select_reshaper :: "PixelDataType \<Rightarrow> PixelDataType \<Rightarrow> (ctype \<times> ctype) option" where
  "select_reshaper dstType srcType =
     (case dstType of
        UBYTE \<Rightarrow>
          (case srcType of
             UBYTE \<Rightarrow> Some (U8, U8)
           | FLOAT \<Rightarrow> Some (U8, F32)
           | INT32 \<Rightarrow> Some (U8, I32)
           | UINT \<Rightarrow> Some (U8, U32)
           | OtherType k \<Rightarrow> None)
      | FLOAT \<Rightarrow>
          (case srcType of
             UBYTE \<Rightarrow> Some (F32, U8)
           | FLOAT \<Rightarrow> Some (F32, F32)
           | INT32 \<Rightarrow> Some (F32, I32)
           | UINT \<Rightarrow> Some (F32, U32)
           | OtherType k \<Rightarrow> None)
      | INT32 \<Rightarrow>
          (case srcType of
             UBYTE \<Rightarrow> Some (I32, U8)
           | FLOAT \<Rightarrow> Some (I32, F32)
           | INT32 \<Rightarrow> Some (I32, I32)
           | UINT \<Rightarrow> Some (I32, U32)
           | OtherType k \<Rightarrow> None)
      | UINT \<Rightarrow>
          (case srcType of
             UBYTE \<Rightarrow> Some (U32, U8)
           | FLOAT \<Rightarrow> Some (U32, F32)
           | INT32 \<Rightarrow> Some (U32, I32)
           | UINT \<Rightarrow> Some (U32, U32)
           | OtherType k \<Rightarrow> None)
      | OtherType k \<Rightarrow> None)"

text \<open>
  The non-template \<open>DataReshaper::reshapeImage\<close>. \<open>computeDataSize\<close> stands for
  \<open>PixelBufferDescriptor::computeDataSize\<close>, which is not among the sources. The result is
  the returned flag with the memory after the call; \<open>None\<close> when the kernel runs into
  undefined arithmetic.
\<close>

definition reshapeImage_dispatch ::
  "float_ops \<Rightarrow> (PixelDataFormat \<Rightarrow> PixelDataType \<Rightarrow> nat \<Rightarrow> nat \<Rightarrow> nat \<Rightarrow> nat)
     \<Rightarrow> PixelBufferDescriptor \<Rightarrow> PixelDataType \<Rightarrow> nat \<Rightarrow> int \<Rightarrow> int \<Rightarrow> int \<Rightarrow> bool
     \<Rightarrow> memory \<Rightarrow> (bool \<times> memory) option" where
  "reshapeImage_dispatch fo computeDataSize dst srcType srcBytes srcBytesPerRow width height
     swizzle m =
     (case format_channels (pbd_format dst) of
        None \<Rightarrow> Some (False, m)
      | Some dstChannelCount \<Rightarrow>
          (case select_reshaper (pbd_type dst) srcType of
             None \<Rightarrow> Some (False, m)
           | Some (dT, sT) \<Rightarrow>
               let dstBytes = pbd_buffer dst;
                   dstBytesPerRow =
                     to_int (computeDataSize (pbd_format dst) (pbd_type dst)
                       (if pbd_stride dst \<noteq> 0 then pbd_stride dst else to_size_t width)
                       1 (pbd_alignment dst))
               in (case reshapeImage fo dT sT dstBytes srcBytes (to_size_t srcBytesPerRow)
                          (to_size_t dstBytesPerRow) dstChannelCount (to_size_t height) swizzle m of
                     None \<Rightarrow> None
                   | Some m' \<Rightarrow> Some (True, m'))))"

section \<open>Reference quantities and example inputs\<close>

text \<open>
  The pixel count in the words of the specification of the generic reshape:
  \<open>numSrcBytes / (componentSize * srcChannelCount)\<close>, rounded down.
\<close>

definition spec_pixel_count :: "ctype \<Rightarrow> nat \<Rightarrow> nat \<Rightarrow> nat" where
  "spec_pixel_count cT srcChannelCount numSrcBytes = numSrcBytes div (sizeof cT * srcChannelCount)"

text \<open>
  The proportional rescale in the words of the specification,
  \<open>sourceValue * dstMaxValue / srcMaxValue\<close>, over the unbounded integers.
\<close>

definition exact_rescale :: "int \<Rightarrow> int \<Rightarrow> int \<Rightarrow> int" where
  "exact_rescale sourceValue dstMaxValue srcMaxValue = sourceValue * dstMaxValue div srcMaxValue"

text \<open>Concrete inputs on which the theorems below are exercised.\<close>

definition example_float_ops :: float_ops where
  "example_float_ops =
     \<lparr>fmul = (\<lambda>a b. 0), fdiv = (\<lambda>a b. 0), f_of_int = (\<lambda>i. 0), f_trunc = (\<lambda>f. None)\<rparr>"

definition example_pixel :: memory where
  "example_pixel = write_bytes (\<lambda>a. 0) 0 [10, 20, 30, 255]"

definition example_pixel_u32 :: memory where
  "example_pixel_u32 =
     write_bytes (\<lambda>a. 0xAA) 0 [2, 0, 0, 0, 2, 0, 0, 0, 2, 0, 0, 0, 2, 0, 0, 0]"

definition example_rgb :: memory where
  "example_rgb = write_bytes (\<lambda>a. 0) 0 [10, 20, 30, 40, 50, 60]"

definition example_wide :: memory where
  "example_wide = (\<lambda>a. if a = 0 then 7 else 0)"

definition example_descriptor :: PixelBufferDescriptor where
  "example_descriptor =
     \<lparr>pbd_buffer = 16, pbd_format = RGBA, pbd_type = UBYTE, pbd_stride = 0, pbd_alignment = 1\<rparr>"

definition example_computeDataSize ::
  "PixelDataFormat \<Rightarrow> PixelDataType \<Rightarrow> nat \<Rightarrow> nat \<Rightarrow> nat \<Rightarrow> nat" where
  "example_computeDataSize fmt ty stride height alignment = 4 * stride * height"







definition example_rgb_after :: memory where
  "example_rgb_after = write_bytes (\<lambda>a. 0) 0 [10, 20, 30, 255, 255, 255, 255, 255]"

section \<open>Simplifier setup\<close>

text \<open>Each loop is unfolded by hand, one iteration at a time.\<close>

declare reshape_copy.simps [simp del] fill_channels.simps [simp del] reshape_words.simps [simp del]
  copy_channels.simps [simp del] image_columns.simps [simp del] image_rows.simps [simp del]
  copy_channels_v1.simps [simp del] image_columns_v1.simps [simp del] image_rows_v1.simps [simp del]

section \<open>Loads and stores\<close>

text \<open>
  A stored component is read back unchanged, a store changes only the bytes of its
  component, and a load depends only on the bytes of its component.
\<close>

lemma le_bytes_1: "le_bytes 1 w = [ucast w]"
  by simp

lemma le_bytes_2: "le_bytes 2 w = [ucast w, ucast (drop_bit 8 w)]"
proof -
  have "le_bytes 2 w = le_bytes (Suc (Suc 0)) w" by (simp only: numeral_2_eq_2)
  then show ?thesis by simp
qed

lemma le_bytes_4:
  "le_bytes 4 w = [ucast w, ucast (drop_bit 8 w), ucast (drop_bit 16 w), ucast (drop_bit 24 w)]"
proof -
  have "(4::nat) = Suc (Suc (Suc (Suc 0)))" by simp
  then have "le_bytes 4 w = le_bytes (Suc (Suc (Suc (Suc 0)))) w" by (simp only:)
  then show ?thesis by (simp add: drop_bit_drop_bit)
qed

lemma le_word_bytes_8: "le_word (le_bytes 1 (w :: 8 word)) = w"
  by simp

lemma le_word_bytes_16: "le_word (le_bytes 2 (w :: 16 word)) = w"
proof (rule bit_word_eqI)
  fix n :: nat
  assume "n < LENGTH(16)"
  then have n: "n < 16" by simp
  consider "n < 8" | "8 \<le> n"
    by linarith
  then show "bit (le_word (le_bytes 2 w) :: 16 word) n = bit w n"
    unfolding le_bytes_2 using n
    by cases (auto simp add: bit_simps)
qed

lemma le_word_bytes_32: "le_word (le_bytes 4 (w :: 32 word)) = w"
proof (rule bit_word_eqI)
  fix n :: nat
  assume "n < LENGTH(32)"
  then have n: "n < 32" by simp
  consider "n < 8" | "8 \<le> n" "n < 16" | "16 \<le> n" "n < 24" | "24 \<le> n"
    by linarith
  then show "bit (le_word (le_bytes 4 w) :: 32 word) n = bit w n"
    unfolding le_bytes_4 using n
    by cases (auto simp add: bit_simps)
qed

lemma length_le_bytes: "length (le_bytes n w) = n"
  by (induction n arbitrary: w) simp_all

lemma length_encode: "length (encode v) = sizeof (type_of v)"
  by (cases v) (simp_all add: length_le_bytes del: le_bytes.simps)

lemma decode_encode: "decode (type_of v) (encode v) = v"
  using le_word_bytes_8 le_word_bytes_16 le_word_bytes_32
  by (cases v) (simp_all del: le_bytes.simps One_nat_def)

lemma write_bytes_outside: "x < a \<or> a + length bs \<le> x \<Longrightarrow> write_bytes m a bs x = m x"
  by (induction bs arbitrary: m a) auto

lemma write_bytes_inside: "a \<le> x \<Longrightarrow> x < a + length bs \<Longrightarrow> write_bytes m a bs x = bs ! (x - a)"
proof (induction bs arbitrary: m a)
  case Nil
  then show ?case by simp
next
  case (Cons b bs)
  show ?case
  proof (cases "x = a")
    case True
    then show ?thesis by (simp add: write_bytes_outside)
  next
    case False
    with Cons.prems have "Suc a \<le> x" "x < Suc a + length bs" by simp_all
    from Cons.IH [OF this] False Cons.prems show ?thesis
      by (simp add: nth_Cons')
  qed
qed

lemma read_write_bytes: "read_bytes (write_bytes m a bs) a (length bs) = bs"
  by (rule nth_equalityI) (simp_all add: read_bytes_def write_bytes_inside)

lemma store_outside:
  "x < a \<or> a + sizeof (type_of v) \<le> x \<Longrightarrow> store m a v x = m x"
  by (simp add: store_def write_bytes_outside length_encode)

lemma load_store_same: "type_of v = t \<Longrightarrow> load t (store m a v) a = v"
  using read_write_bytes [of m a "encode v"]
  by (auto simp add: load_def store_def length_encode decode_encode)

lemma load_cong_region:
  "(\<And>x. a \<le> x \<Longrightarrow> x < a + sizeof t \<Longrightarrow> m x = m' x) \<Longrightarrow> load t m a = load t m' a"
proof -
  assume h: "\<And>x. a \<le> x \<Longrightarrow> x < a + sizeof t \<Longrightarrow> m x = m' x"
  have "map m [a..<a + sizeof t] = map m' [a..<a + sizeof t]"
    by (rule map_cong) (simp_all add: h)
  then show ?thesis by (simp only: load_def read_bytes_def)
qed

lemma type_of_load: "type_of (load t m a) = t"
  by (cases t) (simp_all add: load_def)

lemma type_of_getMaxValue: "type_of (getMaxValue t) = t"
  by (cases t) simp_all

lemma type_of_assign: "assign fo dT q = Some v \<Longrightarrow> type_of v = dT"
  by (cases dT; cases q) (auto split: option.splits if_splits)

lemma type_of_rescale: "rescale fo dT sT v = Some r \<Longrightarrow> type_of r = dT"
  by (auto simp add: rescale_def type_of_assign split: option.splits)

section \<open>Arithmetic of the 8-bit instance\<close>

text \<open>
  For \<open>uint8_t\<close> on both sides line 77 computes \<open>v * 255 / 255\<close> in \<open>int\<close>, which is
  \<open>v\<close>; hence the kernel of the newer header steps as the kernel of the older one.
\<close>

lemma rescale_U8_U8: "rescale fo U8 U8 (VU8 w) = Some (VU8 w)"
proof -
  have b: "0 \<le> uint w" "uint w < 256"
    using uint_bounded [of w] by simp_all
  have lo: "- (2 ^ 31) \<le> uint w * 255"
    by (rule order_trans [of _ 0]) simp_all
  have hi: "uint w * 255 < 2 ^ 31"
    using b by simp
  have r: "int_range (uint w * 255)"
    unfolding int_range_def using lo hi by (rule conjI)
  have d: "(uint w * 255) sdiv 255 = uint w"
    by (simp add: signed_divide_int_eq_divide_int)
  have lo2: "- (2 ^ 31) \<le> uint w"
    by (rule order_trans [of _ 0]) simp_all
  have hi2: "uint w < 2 ^ 31"
    using b by simp
  have r2: "int_range (uint w)"
    unfolding int_range_def using lo2 hi2 by (rule conjI)
  show ?thesis
    using r r2 by (simp add: rescale_def d)
qed

lemma load_U8: "load U8 m a = VU8 (m a)"
  by (simp add: load_def read_bytes_def)

lemma copy_channels_U8_v1:
  "copy_channels fo U8 U8 sw inp outp channel n m = Some (copy_channels_v1 U8 sw inp outp channel n m)"
proof (induction U8 sw inp outp channel n m rule: copy_channels_v1.induct)
  case (1 sw inp outp channel n m)
  show ?case
  proof (cases "channel < n")
    case True
    then show ?thesis
      using 1 [OF True]
      by (simp add: copy_channels.simps [of fo U8 U8 sw inp outp channel]
          copy_channels_v1.simps [of U8 sw inp outp channel] load_U8 rescale_U8_U8)
  next
    case False
    then show ?thesis
      by (simp add: copy_channels.simps [of fo U8 U8 sw inp outp channel]
          copy_channels_v1.simps [of U8 sw inp outp channel])
  qed
qed

lemma image_columns_U8_v1:
  "image_columns fo U8 U8 sw dcc column width inp outp m
     = Some (image_columns_v1 U8 sw dcc column width inp outp m)"
proof (induction U8 sw dcc column width inp outp m rule: image_columns_v1.induct)
  case (1 sw dcc column width inp outp m)
  show ?case
  proof (cases "column < width")
    case True
    then show ?thesis
      using 1 [OF True]
      by (simp add: image_columns.simps [of fo U8 U8 sw dcc column]
          image_columns_v1.simps [of U8 sw dcc column] copy_channels_U8_v1)
  next
    case False
    then show ?thesis
      by (simp add: image_columns.simps [of fo U8 U8 sw dcc column]
          image_columns_v1.simps [of U8 sw dcc column])
  qed
qed

lemma image_rows_U8_v1:
  "image_rows fo U8 U8 sw dcc width sb db row height src dest m
     = Some (image_rows_v1 U8 sw dcc width sb db row height src dest m)"
proof (induction U8 sw dcc width sb db row height src dest m rule: image_rows_v1.induct)
  case (1 sw dcc width sb db row height src dest m)
  show ?case
  proof (cases "row < height")
    case True
    then show ?thesis
      using 1 [OF True]
      by (simp add: image_rows.simps [of fo U8 U8 sw dcc width sb db row]
          image_rows_v1.simps [of U8 sw dcc width sb db row] image_columns_U8_v1)
  next
    case False
    then show ?thesis
      by (simp add: image_rows.simps [of fo U8 U8 sw dcc width sb db row]
          image_rows_v1.simps [of U8 sw dcc width sb db row])
  qed
qed

section \<open>The loop over the channels\<close>

text \<open>
  What each inner loop leaves outside the channels it writes, and what it leaves in
  them, provided the source pixel does not overlap the destination pixel.
\<close>

lemma load_unchanged:
  "(\<And>x. a \<le> x \<Longrightarrow> x < a + sizeof t \<Longrightarrow> m' x = m x) \<Longrightarrow> load t m' a = load t m a"
  by (rule load_cong_region) simp

lemma chan_le: "(k::nat) < n \<Longrightarrow> a + k * s + s \<le> a + n * s"
proof -
  assume "k < n"
  then have "Suc k * s \<le> n * s" by (intro mult_le_mono1) simp
  then show ?thesis by simp
qed

lemma fill_channels_outside:
  "type_of mv = cT \<Longrightarrow> x < outp + channel * sizeof cT \<or> outp + n * sizeof cT \<le> x
     \<Longrightarrow> fill_channels cT mv outp channel n m x = m x"
proof (induction cT mv outp channel n m rule: fill_channels.induct)
  case (1 cT mv outp channel n m)
  show ?case
  proof (cases "channel < n")
    case True
    have a: "x < outp + Suc channel * sizeof cT \<or> outp + n * sizeof cT \<le> x"
      using "1.prems"(2) by auto
    have b: "x < outp + channel * sizeof cT \<or> outp + channel * sizeof cT + sizeof (type_of mv) \<le> x"
      using "1.prems" chan_le [OF True, of outp "sizeof cT"] by auto
    show ?thesis
      using "1.IH" [OF True "1.prems"(1) a] True
      by (simp add: fill_channels.simps [of cT mv outp channel] store_outside [OF b])
  next
    case False
    then show ?thesis by (simp add: fill_channels.simps [of cT mv outp channel])
  qed
qed

lemma fill_channels_value:
  "type_of mv = cT \<Longrightarrow> channel \<le> k \<Longrightarrow> k < n
     \<Longrightarrow> load cT (fill_channels cT mv outp channel n m) (outp + k * sizeof cT) = mv"
proof (induction cT mv outp channel n m rule: fill_channels.induct)
  case (1 cT mv outp channel n m)
  from "1.prems" have lt: "channel < n" by simp
  show ?case
  proof (cases "k = channel")
    case True
    have "load cT (fill_channels cT mv outp (Suc channel) n (store m (outp + channel * sizeof cT) mv))
            (outp + channel * sizeof cT)
          = load cT (store m (outp + channel * sizeof cT) mv) (outp + channel * sizeof cT)"
      by (rule load_unchanged, rule fill_channels_outside [OF "1.prems"(1)]) simp
    then show ?thesis
      using lt True "1.prems"(1)
      by (simp add: fill_channels.simps [of cT mv outp channel] load_store_same)
  next
    case False
    with "1.prems" have "Suc channel \<le> k" by simp
    from "1.IH" [OF lt "1.prems"(1) this "1.prems"(3)] lt show ?thesis
      by (simp add: fill_channels.simps [of cT mv outp channel])
  qed
qed

lemma copy_channels_outside:
  "copy_channels fo dT sT sw inp outp channel n m = Some m'
     \<Longrightarrow> x < outp + channel * sizeof dT \<or> outp + n * sizeof dT \<le> x
     \<Longrightarrow> m' x = m x"
proof (induction fo dT sT sw inp outp channel n m rule: copy_channels.induct)
  case (1 fo dT sT sw inp outp channel n m)
  show ?case
  proof (cases "channel < n")
    case True
    with "1.prems"(1) obtain v where
      v: "rescale fo dT sT (load sT m (inp + inds sw ! channel * sizeof sT)) = Some v"
      and rest: "copy_channels fo dT sT sw inp outp (Suc channel) n
                   (store m (outp + channel * sizeof dT) v) = Some m'"
      by (auto simp add: copy_channels.simps [of fo dT sT sw inp outp channel] split: option.splits)
    have t: "type_of v = dT" using v by (rule type_of_rescale)
    have a: "x < outp + Suc channel * sizeof dT \<or> outp + n * sizeof dT \<le> x"
      using "1.prems"(2) by auto
    have b: "x < outp + channel * sizeof dT \<or> outp + channel * sizeof dT + sizeof (type_of v) \<le> x"
      using "1.prems"(2) chan_le [OF True, of outp "sizeof dT"] t by auto
    show ?thesis
      using "1.IH" [OF True v rest a] by (simp add: store_outside [OF b])
  next
    case False
    with "1.prems"(1) show ?thesis
      by (simp add: copy_channels.simps [of fo dT sT sw inp outp channel])
  qed
qed

lemma inds_less: "k < 4 \<Longrightarrow> inds sw ! k < 4"
proof -
  assume "k < 4"
  then consider "k = 0" | "k = 1" | "k = 2" | "k = 3" by linarith
  then show ?thesis by cases (simp_all add: inds_def)
qed

lemma copy_channels_value:
  assumes "copy_channels fo dT sT sw inp outp channel n m = Some m'"
    and "inp + 4 * sizeof sT \<le> outp \<or> outp + n * sizeof dT \<le> inp"
    and "n \<le> 4" and "channel \<le> k" and "k < n"
  shows "rescale fo dT sT (load sT m (inp + inds sw ! k * sizeof sT))
           = Some (load dT m' (outp + k * sizeof dT))"
  using assms
proof (induction fo dT sT sw inp outp channel n m rule: copy_channels.induct)
  case (1 fo dT sT sw inp outp channel n m)
  from "1.prems" have lt: "channel < n" by simp
  with "1.prems"(1) obtain v where
    v: "rescale fo dT sT (load sT m (inp + inds sw ! channel * sizeof sT)) = Some v"
    and rest: "copy_channels fo dT sT sw inp outp (Suc channel) n
                 (store m (outp + channel * sizeof dT) v) = Some m'"
    by (auto simp add: copy_channels.simps [of fo dT sT sw inp outp channel] split: option.splits)
  have t: "type_of v = dT" using v by (rule type_of_rescale)
  show ?case
  proof (cases "k = channel")
    case True
    have "load dT m' (outp + channel * sizeof dT)
            = load dT (store m (outp + channel * sizeof dT) v) (outp + channel * sizeof dT)"
      by (rule load_unchanged, rule copy_channels_outside [OF rest]) simp
    then show ?thesis
      using v t True by (simp add: load_store_same)
  next
    case False
    with "1.prems" have le: "Suc channel \<le> k" by simp
    have "k < 4" using "1.prems" by simp
    then have i: "inds sw ! k < 4" by (rule inds_less)
    have src: "load sT (store m (outp + channel * sizeof dT) v) (inp + inds sw ! k * sizeof sT)
                 = load sT m (inp + inds sw ! k * sizeof sT)"
    proof (rule load_unchanged, rule store_outside)
      fix x
      assume x: "inp + inds sw ! k * sizeof sT \<le> x" "x < inp + inds sw ! k * sizeof sT + sizeof sT"
      have "inp + inds sw ! k * sizeof sT + sizeof sT \<le> inp + 4 * sizeof sT"
        using i by (rule chan_le)
      then have "x < inp + 4 * sizeof sT"
        using x(2) by (rule less_le_trans [rotated])
      moreover have "inp \<le> x" using x(1) by simp
      moreover have "outp + channel * sizeof dT + sizeof dT \<le> outp + n * sizeof dT"
        using chan_le [OF lt] .
      ultimately show "x < outp + channel * sizeof dT
                         \<or> outp + channel * sizeof dT + sizeof (type_of v) \<le> x"
        using "1.prems"(2) t by auto
    qed
    from "1.IH" [OF lt v rest "1.prems"(2) "1.prems"(3) le "1.prems"(5)] src
    show ?thesis by simp
  qed
qed

section \<open>One row of the image kernel\<close>

text \<open>The same two facts for one pixel and for the pixels of one row.\<close>

lemma pixel_outside:
  assumes c: "copy_channels fo dT sT sw inp outp 0 (min 4 dcc) m = Some m1"
    and x: "x < outp \<or> outp + dcc * sizeof dT \<le> x"
  shows "fill_channels dT (getMaxValue dT) outp 4 dcc m1 x = m x"
proof -
  have "min 4 dcc * sizeof dT \<le> dcc * sizeof dT"
    by (intro mult_le_mono1) simp
  with x have "x < outp + 0 * sizeof dT \<or> outp + min 4 dcc * sizeof dT \<le> x"
    by linarith
  from copy_channels_outside [OF c this] have 1: "m1 x = m x" .
  from x have "x < outp + 4 * sizeof dT \<or> outp + dcc * sizeof dT \<le> x"
    by auto
  from fill_channels_outside [OF type_of_getMaxValue this] 1 show ?thesis
    by simp
qed

lemma pixel_value:
  assumes c: "copy_channels fo dT sT sw inp outp 0 (min 4 dcc) m = Some m1"
    and sep: "inp + 4 * sizeof sT \<le> outp \<or> outp + dcc * sizeof dT \<le> inp"
    and k: "k < min 4 dcc"
  shows "rescale fo dT sT (load sT m (inp + inds sw ! k * sizeof sT))
           = Some (load dT (fill_channels dT (getMaxValue dT) outp 4 dcc m1) (outp + k * sizeof dT))"
proof -
  have "min 4 dcc * sizeof dT \<le> dcc * sizeof dT"
    by (intro mult_le_mono1) simp
  with sep have sep': "inp + 4 * sizeof sT \<le> outp \<or> outp + min 4 dcc * sizeof dT \<le> inp"
    by linarith
  have v: "rescale fo dT sT (load sT m (inp + inds sw ! k * sizeof sT))
             = Some (load dT m1 (outp + k * sizeof dT))"
    by (rule copy_channels_value [OF c sep' _ _ k]) simp_all
  from k have "k < 4" by simp
  then have b: "outp + k * sizeof dT + sizeof dT \<le> outp + 4 * sizeof dT"
    by (rule chan_le)
  have "load dT (fill_channels dT (getMaxValue dT) outp 4 dcc m1) (outp + k * sizeof dT)
          = load dT m1 (outp + k * sizeof dT)"
  proof (rule load_unchanged, rule fill_channels_outside [OF type_of_getMaxValue])
    fix x
    assume "x < outp + k * sizeof dT + sizeof dT"
    with b show "x < outp + 4 * sizeof dT \<or> outp + dcc * sizeof dT \<le> x"
      by linarith
  qed
  with v show ?thesis by simp
qed

lemma image_columns_outside:
  "image_columns fo dT sT sw dcc column width inp outp m = Some m'
     \<Longrightarrow> x < outp \<or> outp + (width - column) * (dcc * sizeof dT) \<le> x
     \<Longrightarrow> m' x = m x"
proof (induction fo dT sT sw dcc column width inp outp m rule: image_columns.induct)
  case (1 fo dT sT sw dcc column width inp outp m)
  show ?case
  proof (cases "column < width")
    case True
    with "1.prems"(1) obtain m1 where
      c: "copy_channels fo dT sT sw inp outp 0 (min 4 dcc) m = Some m1"
      and rest: "image_columns fo dT sT sw dcc (Suc column) width (inp + 4 * sizeof sT)
                   (outp + dcc * sizeof dT)
                   (fill_channels dT (getMaxValue dT) outp 4 dcc m1) = Some m'"
      by (auto simp add: image_columns.simps [of fo dT sT sw dcc column] split: option.splits)
    from True have n: "width - column = Suc (width - Suc column)" by simp
    have a: "x < outp + dcc * sizeof dT
               \<or> outp + dcc * sizeof dT + (width - Suc column) * (dcc * sizeof dT) \<le> x"
      using "1.prems"(2) unfolding n by auto
    have b: "x < outp \<or> outp + dcc * sizeof dT \<le> x"
      using "1.prems"(2) unfolding n by auto
    from "1.IH" [OF True c rest a] pixel_outside [OF c b] show ?thesis
      by simp
  next
    case False
    with "1.prems"(1) show ?thesis
      by (simp add: image_columns.simps [of fo dT sT sw dcc column])
  qed
qed

lemma image_columns_value:
  assumes "image_columns fo dT sT sw dcc column width inp outp m = Some m'"
    and "inp + (width - column) * (4 * sizeof sT) \<le> outp
           \<or> outp + (width - column) * (dcc * sizeof dT) \<le> inp"
    and "j < width - column" and "k < min 4 dcc"
  shows "rescale fo dT sT (load sT m (inp + (j * 4 + inds sw ! k) * sizeof sT))
           = Some (load dT m' (outp + (j * dcc + k) * sizeof dT))"
  using assms
proof (induction fo dT sT sw dcc column width inp outp m arbitrary: j
    rule: image_columns.induct)
  case (1 fo dT sT sw dcc column width inp outp m)
  from "1.prems"(3) have lt: "column < width" by simp
  with "1.prems"(1) obtain m1 where
    c: "copy_channels fo dT sT sw inp outp 0 (min 4 dcc) m = Some m1"
    and rest: "image_columns fo dT sT sw dcc (Suc column) width (inp + 4 * sizeof sT)
                 (outp + dcc * sizeof dT)
                 (fill_channels dT (getMaxValue dT) outp 4 dcc m1) = Some m'"
    by (auto simp add: image_columns.simps [of fo dT sT sw dcc column] split: option.splits)
  let ?m2 = "fill_channels dT (getMaxValue dT) outp 4 dcc m1"
  from lt have n: "width - column = Suc (width - Suc column)" by simp
  have sep0: "inp + 4 * sizeof sT \<le> outp \<or> outp + dcc * sizeof dT \<le> inp"
    using "1.prems"(2) unfolding n by auto
  have sepn: "inp + 4 * sizeof sT + (width - Suc column) * (4 * sizeof sT) \<le> outp
                \<or> outp + dcc * sizeof dT + (width - Suc column) * (dcc * sizeof dT) \<le> inp"
    using "1.prems"(2) unfolding n by auto
  then have sep1: "inp + 4 * sizeof sT + (width - Suc column) * (4 * sizeof sT) \<le> outp + dcc * sizeof dT
                \<or> outp + dcc * sizeof dT + (width - Suc column) * (dcc * sizeof dT) \<le> inp + 4 * sizeof sT"
    by linarith
  show ?case
  proof (cases j)
    case 0
    have "load dT m' (outp + k * sizeof dT) = load dT ?m2 (outp + k * sizeof dT)"
    proof (rule load_unchanged, rule image_columns_outside [OF rest])
      fix x
      assume "x < outp + k * sizeof dT + sizeof dT"
      moreover have "outp + k * sizeof dT + sizeof dT \<le> outp + dcc * sizeof dT"
        using "1.prems"(4) by (intro chan_le) simp
      ultimately show "x < outp + dcc * sizeof dT
          \<or> outp + dcc * sizeof dT + (width - Suc column) * (dcc * sizeof dT) \<le> x"
        by linarith
    qed
    with pixel_value [OF c sep0 "1.prems"(4)] 0 show ?thesis
      by simp
  next
    case (Suc j')
    with "1.prems"(3) have j': "j' < width - Suc column" by simp
    have i: "inds sw ! k < 4" using "1.prems"(4) by (intro inds_less) simp
    have src: "load sT ?m2 (inp + 4 * sizeof sT + (j' * 4 + inds sw ! k) * sizeof sT)
                 = load sT m (inp + 4 * sizeof sT + (j' * 4 + inds sw ! k) * sizeof sT)"
    proof (rule load_unchanged, rule pixel_outside [OF c])
      fix x
      assume x: "inp + 4 * sizeof sT + (j' * 4 + inds sw ! k) * sizeof sT \<le> x"
        "x < inp + 4 * sizeof sT + (j' * 4 + inds sw ! k) * sizeof sT + sizeof sT"
      have "Suc (j' * 4 + inds sw ! k) \<le> (width - Suc column) * 4"
        using j' i by simp
      then have "Suc (j' * 4 + inds sw ! k) * sizeof sT \<le> (width - Suc column) * 4 * sizeof sT"
        by (rule mult_le_mono1)
      then have "x < inp + 4 * sizeof sT + (width - Suc column) * (4 * sizeof sT)"
        using x(2) by (simp add: mult.assoc)
      moreover have "inp + 4 * sizeof sT \<le> x" using x(1) by simp
      ultimately show "x < outp \<or> outp + dcc * sizeof dT \<le> x"
        using sepn by linarith
    qed
    from "1.IH" [OF lt c rest sep1 j' "1.prems"(4)] src Suc show ?thesis
      by (simp add: algebra_simps)
  qed
qed

section \<open>All rows of the image kernel\<close>

text \<open>
  The same two facts for the image: a later row does not write into an earlier one when
  the destination stride covers the bytes written per row.
\<close>

lemma image_rows_outside:
  "image_rows fo dT sT sw dcc w sb db row height src dest m = Some m'
     \<Longrightarrow> (\<And>r. r < height - row \<Longrightarrow> x < dest + r * db \<or> dest + r * db + w * (dcc * sizeof dT) \<le> x)
     \<Longrightarrow> m' x = m x"
proof (induction fo dT sT sw dcc w sb db row height src dest m rule: image_rows.induct)
  case (1 fo dT sT sw dcc w sb db row height src dest m)
  show ?case
  proof (cases "row < height")
    case True
    with "1.prems"(1) obtain m1 where
      c: "image_columns fo dT sT sw dcc 0 w src dest m = Some m1"
      and rest: "image_rows fo dT sT sw dcc w sb db (Suc row) height (src + sb) (dest + db) m1
                   = Some m'"
      by (auto simp add: image_rows.simps [of fo dT sT sw dcc w sb db row] split: option.splits)
    from True have "0 < height - row" by simp
    from "1.prems"(2) [OF this] have "x < dest \<or> dest + (w - 0) * (dcc * sizeof dT) \<le> x"
      by simp
    from image_columns_outside [OF c this] have a: "m1 x = m x" .
    have "m' x = m1 x"
    proof (rule "1.IH" [OF True c rest])
      fix r
      assume "r < height - Suc row"
      then have "Suc r < height - row" by simp
      from "1.prems"(2) [OF this]
      show "x < dest + db + r * db \<or> dest + db + r * db + w * (dcc * sizeof dT) \<le> x"
        by (simp add: add.assoc)
    qed
    with a show ?thesis by simp
  next
    case False
    with "1.prems"(1) show ?thesis
      by (simp add: image_rows.simps [of fo dT sT sw dcc w sb db row])
  qed
qed

lemma comp_in_row:
  assumes "j < (w::nat)" and "k < c"
  shows "(j * c + k) * s + s \<le> w * (c * s)"
proof -
  from assms have "Suc j \<le> w" by simp
  then have "Suc j * c \<le> w * c" by (rule mult_le_mono1)
  moreover have "Suc (j * c + k) \<le> Suc j * c" using assms(2) by simp
  ultimately have "Suc (j * c + k) \<le> w * c" by (rule order_trans [rotated])
  then have "Suc (j * c + k) * s \<le> w * c * s" by (rule mult_le_mono1)
  then show ?thesis by (simp add: mult.assoc)
qed

lemma image_rows_value:
  assumes "image_rows fo dT sT sw dcc w sb db row height src dest m = Some m'"
    and "w * (dcc * sizeof dT) \<le> db"
    and "\<And>r r'. r < height - row \<Longrightarrow> r' < height - row \<Longrightarrow>
            src + r * sb + w * (4 * sizeof sT) \<le> dest + r' * db
              \<or> dest + r' * db + w * (dcc * sizeof dT) \<le> src + r * sb"
    and "r < height - row" and "j < w" and "k < min 4 dcc"
  shows "rescale fo dT sT (load sT m (src + r * sb + (j * 4 + inds sw ! k) * sizeof sT))
           = Some (load dT m' (dest + r * db + (j * dcc + k) * sizeof dT))"
  using assms
proof (induction fo dT sT sw dcc w sb db row height src dest m arbitrary: r
    rule: image_rows.induct)
  case (1 fo dT sT sw dcc w sb db row height src dest m)
  from "1.prems"(4) have lt: "row < height" by simp
  with "1.prems"(1) obtain m1 where
    c: "image_columns fo dT sT sw dcc 0 w src dest m = Some m1"
    and rest: "image_rows fo dT sT sw dcc w sb db (Suc row) height (src + sb) (dest + db) m1
                 = Some m'"
    by (auto simp add: image_rows.simps [of fo dT sT sw dcc w sb db row] split: option.splits)
  from lt have pos: "0 < height - row" by simp
  have kd: "k < dcc" using "1.prems"(6) by simp
  have sep': "\<And>r r'. r < height - Suc row \<Longrightarrow> r' < height - Suc row \<Longrightarrow>
            src + sb + r * sb + w * (4 * sizeof sT) \<le> dest + db + r' * db
              \<or> dest + db + r' * db + w * (dcc * sizeof dT) \<le> src + sb + r * sb"
  proof -
    fix r r'
    assume "r < height - Suc row" "r' < height - Suc row"
    then have "Suc r < height - row" "Suc r' < height - row" by simp_all
    from "1.prems"(3) [OF this]
    show "src + sb + r * sb + w * (4 * sizeof sT) \<le> dest + db + r' * db
              \<or> dest + db + r' * db + w * (dcc * sizeof dT) \<le> src + sb + r * sb"
      by (simp add: add.assoc)
  qed
  show ?case
  proof (cases r)
    case 0
    from "1.prems"(3) [OF pos pos]
    have sep0: "src + (w - 0) * (4 * sizeof sT) \<le> dest \<or> dest + (w - 0) * (dcc * sizeof dT) \<le> src"
      by simp
    have j0: "j < w - 0" using "1.prems"(5) by simp
    have v: "rescale fo dT sT (load sT m (src + (j * 4 + inds sw ! k) * sizeof sT))
               = Some (load dT m1 (dest + (j * dcc + k) * sizeof dT))"
      by (rule image_columns_value [OF c sep0 j0 "1.prems"(6)])
    have "load dT m' (dest + (j * dcc + k) * sizeof dT) = load dT m1 (dest + (j * dcc + k) * sizeof dT)"
    proof (rule load_unchanged, rule image_rows_outside [OF rest])
      fix x r
      assume x: "x < dest + (j * dcc + k) * sizeof dT + sizeof dT"
      have "(j * dcc + k) * sizeof dT + sizeof dT \<le> w * (dcc * sizeof dT)"
        using "1.prems"(5) kd by (rule comp_in_row)
      with x "1.prems"(2) have "x < dest + db" by linarith
      then show "x < dest + db + r * db \<or> dest + db + r * db + w * (dcc * sizeof dT) \<le> x"
        by simp
    qed
    with v 0 show ?thesis by simp
  next
    case (Suc r1)
    with "1.prems"(4) have r1: "r1 < height - Suc row" by simp
    have i: "inds sw ! k < 4" using "1.prems"(6) by (intro inds_less) simp
    have src: "load sT m1 (src + sb + r1 * sb + (j * 4 + inds sw ! k) * sizeof sT)
                 = load sT m (src + sb + r1 * sb + (j * 4 + inds sw ! k) * sizeof sT)"
    proof (rule load_unchanged, rule image_columns_outside [OF c])
      fix x
      assume x: "src + sb + r1 * sb + (j * 4 + inds sw ! k) * sizeof sT \<le> x"
        "x < src + sb + r1 * sb + (j * 4 + inds sw ! k) * sizeof sT + sizeof sT"
      have "(j * 4 + inds sw ! k) * sizeof sT + sizeof sT \<le> w * (4 * sizeof sT)"
        using "1.prems"(5) i by (rule comp_in_row)
      with x have "src + Suc r1 * sb \<le> x" "x < src + Suc r1 * sb + w * (4 * sizeof sT)"
        by simp_all
      moreover from "1.prems"(3) [OF "1.prems"(4) pos] Suc
      have "src + Suc r1 * sb + w * (4 * sizeof sT) \<le> dest
              \<or> dest + w * (dcc * sizeof dT) \<le> src + Suc r1 * sb"
        by simp
      ultimately show "x < dest \<or> dest + (w - 0) * (dcc * sizeof dT) \<le> x"
        by (simp del: mult_Suc) linarith
    qed
    from "1.IH" [OF lt c rest "1.prems"(2) sep' r1 "1.prems"(5) "1.prems"(6)] src Suc
    show ?thesis by (simp add: algebra_simps)
  qed
qed

section \<open>The generic reshape, loop by loop\<close>

text \<open>Frame, copied channels and filled channels of \<open>reshape\<close>, from the inside out.\<close>

lemma reshape_copy_outside:
  "x < outp + channel * sizeof cT \<or> outp + n * sizeof cT \<le> x
     \<Longrightarrow> reshape_copy cT inp outp channel n m x = m x"
proof (induction cT inp outp channel n m rule: reshape_copy.induct)
  case (1 cT inp outp channel n m)
  show ?case
  proof (cases "channel < n")
    case True
    let ?v = "load cT m (inp + channel * sizeof cT)"
    have a: "x < outp + Suc channel * sizeof cT \<or> outp + n * sizeof cT \<le> x"
      using "1.prems" by auto
    have b: "x < outp + channel * sizeof cT
               \<or> outp + channel * sizeof cT + sizeof (type_of ?v) \<le> x"
      using "1.prems" chan_le [OF True, of outp "sizeof cT"] by (simp add: type_of_load) linarith
    show ?thesis
      using "1.IH" [OF True a] True
      by (simp add: reshape_copy.simps [of cT inp outp channel] store_outside [OF b])
  next
    case False
    then show ?thesis by (simp add: reshape_copy.simps [of cT inp outp channel])
  qed
qed

lemma reshape_copy_value:
  assumes "inp + n * sizeof cT \<le> outp \<or> outp + n * sizeof cT \<le> inp"
    and "channel \<le> k" and "k < n"
  shows "load cT (reshape_copy cT inp outp channel n m) (outp + k * sizeof cT)
           = load cT m (inp + k * sizeof cT)"
  using assms
proof (induction cT inp outp channel n m rule: reshape_copy.induct)
  case (1 cT inp outp channel n m)
  from "1.prems" have lt: "channel < n" by simp
  let ?v = "load cT m (inp + channel * sizeof cT)"
  let ?m1 = "store m (outp + channel * sizeof cT) ?v"
  have unf: "reshape_copy cT inp outp channel n m = reshape_copy cT inp outp (Suc channel) n ?m1"
    using lt by (simp add: reshape_copy.simps [of cT inp outp channel])
  show ?case
  proof (cases "k = channel")
    case True
    have "load cT (reshape_copy cT inp outp (Suc channel) n ?m1) (outp + channel * sizeof cT)
            = load cT ?m1 (outp + channel * sizeof cT)"
      by (rule load_unchanged, rule reshape_copy_outside) simp
    then show ?thesis
      using True unf by (simp add: load_store_same type_of_load)
  next
    case False
    with "1.prems" have le: "Suc channel \<le> k" by simp
    have src: "load cT ?m1 (inp + k * sizeof cT) = load cT m (inp + k * sizeof cT)"
    proof (rule load_unchanged, rule store_outside)
      fix x
      assume x: "inp + k * sizeof cT \<le> x" "x < inp + k * sizeof cT + sizeof cT"
      have "inp + k * sizeof cT + sizeof cT \<le> inp + n * sizeof cT"
        using "1.prems"(3) by (rule chan_le)
      moreover have "outp + channel * sizeof cT + sizeof cT \<le> outp + n * sizeof cT"
        using lt by (rule chan_le)
      ultimately show "x < outp + channel * sizeof cT
                         \<or> outp + channel * sizeof cT + sizeof (type_of ?v) \<le> x"
        using x "1.prems"(1) by (simp add: type_of_load) linarith
    qed
    from "1.IH" [OF lt "1.prems"(1) le "1.prems"(3)] src unf show ?thesis
      by simp
  qed
qed

lemma reshape_pixel_outside:
  assumes "mcc \<le> dcc" and x: "x < outp \<or> outp + dcc * sizeof cT \<le> x"
  shows "fill_channels cT (getMaxValue cT) outp scc dcc (reshape_copy cT inp outp 0 mcc m) x = m x"
proof -
  have "mcc * sizeof cT \<le> dcc * sizeof cT"
    using assms(1) by (rule mult_le_mono1)
  with x have "x < outp + 0 * sizeof cT \<or> outp + mcc * sizeof cT \<le> x"
    by linarith
  then have 1: "reshape_copy cT inp outp 0 mcc m x = m x"
    by (rule reshape_copy_outside)
  from x have "x < outp + scc * sizeof cT \<or> outp + dcc * sizeof cT \<le> x"
    by linarith
  from fill_channels_outside [OF type_of_getMaxValue this] 1 show ?thesis
    by simp
qed

lemma reshape_pixel_copied:
  assumes "mcc \<le> scc" and "mcc \<le> dcc"
    and sep: "inp + scc * sizeof cT \<le> outp \<or> outp + dcc * sizeof cT \<le> inp"
    and k: "k < mcc"
  shows "load cT (fill_channels cT (getMaxValue cT) outp scc dcc (reshape_copy cT inp outp 0 mcc m))
           (outp + k * sizeof cT) = load cT m (inp + k * sizeof cT)"
proof -
  have "mcc * sizeof cT \<le> scc * sizeof cT" "mcc * sizeof cT \<le> dcc * sizeof cT"
    using assms(1,2) by (simp_all add: mult_le_mono1)
  with sep have sep': "inp + mcc * sizeof cT \<le> outp \<or> outp + mcc * sizeof cT \<le> inp"
    by linarith
  have v: "load cT (reshape_copy cT inp outp 0 mcc m) (outp + k * sizeof cT)
             = load cT m (inp + k * sizeof cT)"
    by (rule reshape_copy_value [OF sep' _ k]) simp
  from k assms(1) have "k < scc" by simp
  then have b: "outp + k * sizeof cT + sizeof cT \<le> outp + scc * sizeof cT"
    by (rule chan_le)
  have "load cT (fill_channels cT (getMaxValue cT) outp scc dcc (reshape_copy cT inp outp 0 mcc m))
          (outp + k * sizeof cT)
          = load cT (reshape_copy cT inp outp 0 mcc m) (outp + k * sizeof cT)"
  proof (rule load_unchanged, rule fill_channels_outside [OF type_of_getMaxValue])
    fix x
    assume "x < outp + k * sizeof cT + sizeof cT"
    with b show "x < outp + scc * sizeof cT \<or> outp + dcc * sizeof cT \<le> x"
      by linarith
  qed
  with v show ?thesis by simp
qed

lemma reshape_words_outside:
  "mcc \<le> dcc \<Longrightarrow> x < outp \<or> outp + (n - word) * (dcc * sizeof cT) \<le> x
     \<Longrightarrow> reshape_words cT scc dcc mcc word n inp outp m x = m x"
proof (induction cT scc dcc mcc word n inp outp m rule: reshape_words.induct)
  case (1 cT scc dcc mcc word n inp outp m)
  show ?case
  proof (cases "word < n")
    case True
    then have n: "n - word = Suc (n - Suc word)" by simp
    have a: "x < outp + dcc * sizeof cT
               \<or> outp + dcc * sizeof cT + (n - Suc word) * (dcc * sizeof cT) \<le> x"
      using "1.prems"(2) unfolding n by auto
    have b: "x < outp \<or> outp + dcc * sizeof cT \<le> x"
      using "1.prems"(2) unfolding n by auto
    from "1.IH" [OF True "1.prems"(1) a] reshape_pixel_outside [OF "1.prems"(1) b] True
    show ?thesis
      by (simp add: reshape_words.simps [of cT scc dcc mcc word])
  next
    case False
    then show ?thesis
      by (simp add: reshape_words.simps [of cT scc dcc mcc word])
  qed
qed

lemma reshape_words_filled:
  assumes "mcc \<le> dcc" and "p < n - word" and "scc \<le> k" and "k < dcc"
  shows "load cT (reshape_words cT scc dcc mcc word n inp outp m) (outp + (p * dcc + k) * sizeof cT)
           = getMaxValue cT"
  using assms
proof (induction cT scc dcc mcc word n inp outp m arbitrary: p rule: reshape_words.induct)
  case (1 cT scc dcc mcc word n inp outp m)
  from "1.prems"(2) have lt: "word < n" by simp
  let ?m2 = "fill_channels cT (getMaxValue cT) outp scc dcc (reshape_copy cT inp outp 0 mcc m)"
  have unf: "reshape_words cT scc dcc mcc word n inp outp m
               = reshape_words cT scc dcc mcc (Suc word) n (inp + scc * sizeof cT)
                   (outp + dcc * sizeof cT) ?m2"
    using lt by (simp add: reshape_words.simps [of cT scc dcc mcc word])
  show ?case
  proof (cases p)
    case 0
    have "load cT (reshape_words cT scc dcc mcc (Suc word) n (inp + scc * sizeof cT)
                     (outp + dcc * sizeof cT) ?m2) (outp + k * sizeof cT)
            = load cT ?m2 (outp + k * sizeof cT)"
    proof (rule load_unchanged, rule reshape_words_outside [OF "1.prems"(1)])
      fix x
      assume "x < outp + k * sizeof cT + sizeof cT"
      moreover have "outp + k * sizeof cT + sizeof cT \<le> outp + dcc * sizeof cT"
        using "1.prems"(4) by (rule chan_le)
      ultimately show "x < outp + dcc * sizeof cT
          \<or> outp + dcc * sizeof cT + (n - Suc word) * (dcc * sizeof cT) \<le> x"
        by linarith
    qed
    with fill_channels_value [OF type_of_getMaxValue "1.prems"(3) "1.prems"(4)] 0 unf
    show ?thesis by simp
  next
    case (Suc p')
    with "1.prems"(2) have p': "p' < n - Suc word" by simp
    from "1.IH" [OF lt "1.prems"(1) p' "1.prems"(3) "1.prems"(4)] Suc unf show ?thesis
      by (simp add: algebra_simps)
  qed
qed

lemma reshape_words_copied:
  assumes "mcc \<le> scc" and "mcc \<le> dcc"
    and "inp + (n - word) * (scc * sizeof cT) \<le> outp
           \<or> outp + (n - word) * (dcc * sizeof cT) \<le> inp"
    and "p < n - word" and "k < mcc"
  shows "load cT (reshape_words cT scc dcc mcc word n inp outp m) (outp + (p * dcc + k) * sizeof cT)
           = load cT m (inp + (p * scc + k) * sizeof cT)"
  using assms
proof (induction cT scc dcc mcc word n inp outp m arbitrary: p rule: reshape_words.induct)
  case (1 cT scc dcc mcc word n inp outp m)
  from "1.prems"(4) have lt: "word < n" by simp
  let ?m2 = "fill_channels cT (getMaxValue cT) outp scc dcc (reshape_copy cT inp outp 0 mcc m)"
  have unf: "reshape_words cT scc dcc mcc word n inp outp m
               = reshape_words cT scc dcc mcc (Suc word) n (inp + scc * sizeof cT)
                   (outp + dcc * sizeof cT) ?m2"
    using lt by (simp add: reshape_words.simps [of cT scc dcc mcc word])
  from lt have n: "n - word = Suc (n - Suc word)" by simp
  have sep0: "inp + scc * sizeof cT \<le> outp \<or> outp + dcc * sizeof cT \<le> inp"
    using "1.prems"(3) unfolding n by auto
  have sepn: "inp + scc * sizeof cT + (n - Suc word) * (scc * sizeof cT) \<le> outp
                \<or> outp + dcc * sizeof cT + (n - Suc word) * (dcc * sizeof cT) \<le> inp"
    using "1.prems"(3) unfolding n by auto
  then have sep1: "inp + scc * sizeof cT + (n - Suc word) * (scc * sizeof cT) \<le> outp + dcc * sizeof cT
                \<or> outp + dcc * sizeof cT + (n - Suc word) * (dcc * sizeof cT) \<le> inp + scc * sizeof cT"
    by linarith
  have kd: "k < dcc" and ks: "k < scc" using "1.prems"(1,2,5) by simp_all
  show ?case
  proof (cases p)
    case 0
    have "load cT (reshape_words cT scc dcc mcc (Suc word) n (inp + scc * sizeof cT)
                     (outp + dcc * sizeof cT) ?m2) (outp + k * sizeof cT)
            = load cT ?m2 (outp + k * sizeof cT)"
    proof (rule load_unchanged, rule reshape_words_outside [OF "1.prems"(2)])
      fix x
      assume "x < outp + k * sizeof cT + sizeof cT"
      moreover have "outp + k * sizeof cT + sizeof cT \<le> outp + dcc * sizeof cT"
        using kd by (rule chan_le)
      ultimately show "x < outp + dcc * sizeof cT
          \<or> outp + dcc * sizeof cT + (n - Suc word) * (dcc * sizeof cT) \<le> x"
        by linarith
    qed
    with reshape_pixel_copied [OF "1.prems"(1) "1.prems"(2) sep0 "1.prems"(5)] 0 unf
    show ?thesis by simp
  next
    case (Suc p')
    with "1.prems"(4) have p': "p' < n - Suc word" by simp
    have src: "load cT ?m2 (inp + scc * sizeof cT + (p' * scc + k) * sizeof cT)
                 = load cT m (inp + scc * sizeof cT + (p' * scc + k) * sizeof cT)"
    proof (rule load_unchanged, rule reshape_pixel_outside [OF "1.prems"(2)])
      fix x
      assume x: "inp + scc * sizeof cT + (p' * scc + k) * sizeof cT \<le> x"
        "x < inp + scc * sizeof cT + (p' * scc + k) * sizeof cT + sizeof cT"
      have "(p' * scc + k) * sizeof cT + sizeof cT \<le> (n - Suc word) * (scc * sizeof cT)"
        using p' ks by (rule comp_in_row)
      with x sepn show "x < outp \<or> outp + dcc * sizeof cT \<le> x"
        by linarith
    qed
    from "1.IH" [OF lt "1.prems"(1) "1.prems"(2) sep1 p' "1.prems"(5)] src Suc unf show ?thesis
      by (simp add: algebra_simps)
  qed
qed

lemma to_size_t_to_int: "n < 2 ^ 31 \<Longrightarrow> to_size_t (to_int n) = n"
proof -
  assume n: "n < 2 ^ 31"
  then have hi: "int n < 2 ^ 31" by (metis of_nat_less_iff of_nat_numeral of_nat_power)
  have lo: "- (2 ^ 31) \<le> int n" by (rule order_trans [of _ 0]) simp_all
  have "signed_take_bit 31 (int n) = int n"
    using lo hi by (rule signed_take_bit_int_eq_self)
  then have s: "sint (word_of_nat n :: 32 word) = int n"
    by (simp add: signed_of_nat)
  have "int n < 2 ^ 64" using hi by simp
  then have "int n mod 2 ^ 64 = int n" by simp
  then show ?thesis
    unfolding to_size_t_def to_int_def s by simp
qed

section \<open>Runs of the image kernel that cannot fail\<close>

text \<open>
  With width 0 the kernel returns the memory it was given; with a rescale that is
  defined on every source value it returns some memory.
\<close>

lemma image_rows_width_0:
  "image_rows fo dT sT sw dcc 0 sb db row height src dest m = Some m"
proof (induction fo dT sT sw dcc "0::nat" sb db row height src dest m rule: image_rows.induct)
  case (1 fo dT sT sw dcc sb db row height src dest m)
  have c: "image_columns fo dT sT sw dcc 0 0 src dest m = Some m"
    by (simp add: image_columns.simps [of fo dT sT sw dcc 0 0])
  show ?case
  proof (cases "row < height")
    case True
    from "1.hyps" [OF True c] True c show ?thesis
      by (simp add: image_rows.simps [of fo dT sT sw dcc 0 sb db row])
  next
    case False
    then show ?thesis
      by (simp add: image_rows.simps [of fo dT sT sw dcc 0 sb db row])
  qed
qed

lemma rescale_U32_U32: "rescale fo U32 U32 (VU32 w) = Some (VU32 (w * 0xffffffff div 0xffffffff))"
  by (simp add: rescale_def)

lemma copy_channels_total:
  assumes "\<And>v. type_of v = sT \<Longrightarrow> rescale fo dT sT v \<noteq> None"
  shows "copy_channels fo dT sT sw inp outp channel n m \<noteq> None"
  using assms
proof (induction fo dT sT sw inp outp channel n m rule: copy_channels.induct)
  case (1 fo dT sT sw inp outp channel n m)
  show ?case
  proof (cases "channel < n")
    case True
    from "1.prems" [OF type_of_load] obtain v where
      v: "rescale fo dT sT (load sT m (inp + inds sw ! channel * sizeof sT)) = Some v"
      by blast
    from "1.IH" [OF True v "1.prems"] v True show ?thesis
      by (simp add: copy_channels.simps [of fo dT sT sw inp outp channel])
  next
    case False
    then show ?thesis
      by (simp add: copy_channels.simps [of fo dT sT sw inp outp channel])
  qed
qed

lemma image_columns_total:
  assumes "\<And>v. type_of v = sT \<Longrightarrow> rescale fo dT sT v \<noteq> None"
  shows "image_columns fo dT sT sw dcc column width inp outp m \<noteq> None"
  using assms
proof (induction fo dT sT sw dcc column width inp outp m rule: image_columns.induct)
  case (1 fo dT sT sw dcc column width inp outp m)
  show ?case
  proof (cases "column < width")
    case True
    from copy_channels_total [of sT fo dT, OF "1.prems"] obtain m1 where
      c: "copy_channels fo dT sT sw inp outp 0 (min 4 dcc) m = Some m1"
      by blast
    from "1.IH" [OF True c "1.prems"] c True show ?thesis
      by (simp add: image_columns.simps [of fo dT sT sw dcc column])
  next
    case False
    then show ?thesis
      by (simp add: image_columns.simps [of fo dT sT sw dcc column])
  qed
qed

lemma image_rows_total:
  assumes "\<And>v. type_of v = sT \<Longrightarrow> rescale fo dT sT v \<noteq> None"
  shows "image_rows fo dT sT sw dcc w sb db row height src dest m \<noteq> None"
  using assms
proof (induction fo dT sT sw dcc w sb db row height src dest m rule: image_rows.induct)
  case (1 fo dT sT sw dcc w sb db row height src dest m)
  show ?case
  proof (cases "row < height")
    case True
    from image_columns_total [of sT fo dT, OF "1.prems"] obtain m1 where
      c: "image_columns fo dT sT sw dcc 0 w src dest m = Some m1"
      by blast
    from "1.IH" [OF True c "1.prems"] c True show ?thesis
      by (simp add: image_rows.simps [of fo dT sT sw dcc w sb db row])
  next
    case False
    then show ?thesis
      by (simp add: image_rows.simps [of fo dT sT sw dcc w sb db row])
  qed
qed

lemma rescale_U32_U32_total: "type_of v = U32 \<Longrightarrow> rescale fo U32 U32 v \<noteq> None"
  by (cases v) (simp_all add: rescale_U32_U32)

lemma read_bytes_4: "read_bytes m a 4 = [m a, m (a + 1), m (a + 2), m (a + 3)]"
proof -
  have "[a..<a + 4] = [a, a + 1, a + 2, a + 3]"
    by (simp add: upt_rec [of a] upt_rec [of "Suc a"] upt_rec [of "Suc (Suc a)"]
        upt_rec [of "Suc (Suc (Suc a))"] upt_rec [of "Suc (Suc (Suc (Suc a)))"])
  then show ?thesis by (simp add: read_bytes_def)
qed

lemma load_U32_example: "load U32 example_pixel_u32 0 = VU32 2"
  by (simp add: load_def read_bytes_4 example_pixel_u32_def)

section \<open>Integer conversions\<close>

lemma to_size_t_0: "to_size_t 0 = 0"
  by (simp add: to_size_t_def)

lemma reshape_unfold:
  "0 < scc \<Longrightarrow> min scc dcc < 2 ^ 31 \<Longrightarrow>
     reshape cT scc dcc dest src numSrcBytes m
       = Some (reshape_words cT scc dcc (min scc dcc) 0 (spec_pixel_count cT scc numSrcBytes)
                 src dest m)"
  by (simp add: reshape_def spec_pixel_count_def to_size_t_to_int div_mult2_eq Let_def)

lemma to_int_2_32: "to_size_t (to_int 4294967296) = 0"
  by (simp add: to_int_def to_size_t_def)

section \<open>Runs on overlapping buffers and on short destination rows\<close>

text \<open>
  The kernels evaluated on the example inputs: a swizzle in place, two rows whose
  stride is half the bytes written per row, a conversion from \<open>uint32_t\<close> to \<open>uint8_t\<close>
  with the row sizes of tightly packed buffers, and an expansion from 3 to 4 channels in
  place.
\<close>

lemma store_U8: "store m a (VU8 w) = m(a := w)"
  by (simp add: store_def)



lemma reshape_inplace_run:
  "reshape U8 3 4 0 0 6 example_rgb = Some example_rgb_after"
proof -
  have "to_size_t (to_int (min 3 4)) = 3"
    using to_size_t_to_int [of 3] by simp
  then show ?thesis
    apply (simp add: reshape_def reshape_words.simps reshape_copy.simps fill_channels.simps
        load_U8 store_U8 example_rgb_def example_rgb_after_def)
    apply (rule ext)
    apply (simp add: eval_nat_numeral)
    done
qed

lemma reshape_zero_channels: "reshape cT 0 dcc dest src n m = None"
  by (simp add: reshape_def)





section \<open>The maximum-value table, verified\<close>

text \<open>
  C7. The maximum value is 255 for \<open>uint8_t\<close>, 1.0 for \<open>float\<close> (the bit pattern
  \<open>0x3F800000\<close>, which stands for the real number 1), \<open>0x7fffffff\<close> for \<open>int32_t\<close>,
  \<open>0xffffffff\<close> for \<open>uint32_t\<close> and \<open>0x3c00\<close> for \<open>uint16_t\<close>; the value has the type
  asked for, and \<open>getDefaultAlpha\<close> of the older header returns the same values.
\<close>

theorem max_value_table:
  "getMaxValue U8 = VU8 255
     \<and> getMaxValue F32 = VF32 0x3F800000 \<and> f32_real 0x3F800000 = Some 1
     \<and> getMaxValue I32 = VI32 0x7fffffff
     \<and> getMaxValue U32 = VU32 0xffffffff
     \<and> getMaxValue U16 = VU16 0x3c00
     \<and> type_of (getMaxValue t) = t
     \<and> getDefaultAlpha t = getMaxValue t"
  by (cases t) (simp_all add: f32_real_def)

section \<open>The rescale of line 77\<close>

text \<open>
  C2. The specification asks for the exact proportional rescale, computed with
  arithmetic wide enough not to overflow. Line 77 multiplies in the common type of its
  operands: for \<open>uint32_t\<close> to \<open>uint32_t\<close> the product wraps modulo \<open>2^32\<close> and
  the source value 2 becomes 0, where the exact rescale gives 2; for \<open>uint32_t\<close> to
  \<open>uint8_t\<close> the fully-on source value becomes 0, where the exact rescale gives 255; for
  \<open>int32_t\<close> to \<open>int32_t\<close> the product of 2 and \<open>0x7fffffff\<close> overflows \<open>int\<close>.
\<close>

theorem rescale_wraps_or_overflows:
  "rescale fo U32 U32 (VU32 2) = Some (VU32 0)
     \<and> exact_rescale 2 0xffffffff 0xffffffff = 2
     \<and> rescale fo U8 U32 (VU32 0xffffffff) = Some (VU8 0)
     \<and> exact_rescale 0xffffffff 0xff 0xffffffff = 255
     \<and> rescale fo I32 I32 (VI32 2) = None
     \<and> exact_rescale 2 0x7fffffff 0x7fffffff = 2"
  by (simp add: rescale_def int_range_def exact_rescale_def)

text \<open>
  C3. The specification says that a conversion between identical component types,
  swizzle off, copies the channel values unchanged. For \<open>reshapeImage<uint32_t,
  uint32_t>\<close> on one RGBA pixel whose channels all hold 2 (16 source bytes at address 0,
  destination at address 16, 4 destination channels, height 1) the kernel returns, and
  destination channel 0 holds 0 while source channel 0 holds 2.
\<close>

theorem identity_rescale_fails_for_uint32:
  "\<exists>m'. reshapeImage fo U32 U32 16 0 16 16 4 1 False example_pixel_u32 = Some m'
     \<and> load U32 example_pixel_u32 0 = VU32 2 \<and> load U32 m' 16 = VU32 0"
proof -
  from image_rows_total [of U32 fo U32, OF rescale_U32_U32_total] obtain m' where
    run: "image_rows fo U32 U32 False 4 1 16 16 0 1 0 16 example_pixel_u32 = Some m'"
    by blast
  have "rescale fo U32 U32 (load U32 example_pixel_u32 (0 + 0 * 16 + (0 * 4 + inds False ! 0) * sizeof U32))
          = Some (load U32 m' (16 + 0 * 16 + (0 * 4 + 0) * sizeof U32))"
    by (rule image_rows_value [OF run]) simp_all
  then have "load U32 m' 16 = VU32 0"
    by (simp add: inds_def load_U32_example rescale_U32_U32)
  with run show ?thesis
    by (simp add: reshapeImage_def image_width_def load_U32_example)
qed

text \<open>
  C10. For \<open>uint8_t\<close> the kernel of the newer header, \<open>reshapeImage<uint8_t,
  uint8_t>\<close>, always returns, and leaves the memory that \<open>reshapeImage<uint8_t>\<close> of the
  older header leaves on the same arguments.
\<close>

theorem reshapeImage_U8_refines_v1:
  "reshapeImage fo U8 U8 dest src srcBytesPerRow dstBytesPerRow dstChannelCount height swizzle03 m
     = Some (reshapeImage_v1 U8 dest src srcBytesPerRow dstBytesPerRow dstChannelCount height swizzle03 m)"
  by (simp add: reshapeImage_def reshapeImage_v1_def image_rows_U8_v1)

section \<open>Geometry of the image kernel\<close>

text \<open>
  C1. The specification derives the pixels per row from the source component size,
  \<open>width = sourceRowBytes / (sourceComponentSize * 4)\<close>. Line 67 divides by the size of
  the destination component type instead. For \<open>reshapeImage<uint32_t, uint8_t>\<close> and a
  source row of 8 bytes (two RGBA pixels of one byte per channel) the kernel computes
  width 0, where the specification gives 2, and returns with the memory untouched,
  whatever the height.
\<close>

theorem image_width_divides_by_destination_size:
  "image_width U32 8 = 0 \<and> 8 div (sizeof U8 * 4) = (2::nat)
     \<and> reshapeImage fo U32 U8 dest src 8 dstBytesPerRow dstChannelCount height swizzle03 m = Some m"
  by (simp add: image_width_def reshapeImage_def image_rows_width_0)







section \<open>The dispatcher, verified\<close>

text \<open>
  C4. When the destination format is neither RGB nor RGBA, or the destination or the
  source numeric type is none of UBYTE, FLOAT, INT and UINT, the dispatcher returns
  false and the memory after the call is the memory before it.
\<close>

theorem dispatch_rejects_unsupported:
  assumes "pbd_format dst \<notin> {RGB, RGBA}
             \<or> pbd_type dst \<notin> {UBYTE, FLOAT, INT32, UINT}
             \<or> srcType \<notin> {UBYTE, FLOAT, INT32, UINT}"
  shows "reshapeImage_dispatch fo computeDataSize dst srcType srcBytes srcBytesPerRow width height
           swizzle m = Some (False, m)"
proof -
  have "format_channels (pbd_format dst) = None \<or> select_reshaper (pbd_type dst) srcType = None"
    using assms
    by (cases "pbd_format dst"; cases "pbd_type dst"; cases srcType)
      (simp_all add: select_reshaper_def)
  then show ?thesis
    by (auto simp add: reshapeImage_dispatch_def split: option.splits)
qed

text \<open>The rejection at a destination format that is neither RGB nor RGBA.\<close>

theorem dispatch_rejects_unsupported_witness:
  "pbd_format (example_descriptor\<lparr>pbd_format := OtherFormat 0\<rparr>) \<notin> {RGB, RGBA}
     \<and> reshapeImage_dispatch example_float_ops example_computeDataSize
           (example_descriptor\<lparr>pbd_format := OtherFormat 0\<rparr>) UBYTE 0 4 1 1 False example_pixel
         = Some (False, example_pixel)"
  using dispatch_rejects_unsupported [of "example_descriptor\<lparr>pbd_format := OtherFormat 0\<rparr>" UBYTE
      example_float_ops example_computeDataSize 0 4 1 1 False example_pixel]
  by (simp add: example_descriptor_def)

text \<open>
  C8. With destination format RGB or RGBA, destination and source numeric types among
  UBYTE, FLOAT, INT and UINT, and height 0, the dispatcher returns true and the memory
  after the call is the memory before it.
\<close>

theorem dispatch_height_zero_succeeds:
  assumes "pbd_format dst \<in> {RGB, RGBA}"
    and "pbd_type dst \<in> {UBYTE, FLOAT, INT32, UINT}"
    and "srcType \<in> {UBYTE, FLOAT, INT32, UINT}"
  shows "reshapeImage_dispatch fo computeDataSize dst srcType srcBytes srcBytesPerRow width 0
           swizzle m = Some (True, m)"
proof -
  from assms(1) obtain dcc where f: "format_channels (pbd_format dst) = Some dcc"
    by (cases "pbd_format dst") simp_all
  from assms(2,3) obtain dT sT where s: "select_reshaper (pbd_type dst) srcType = Some (dT, sT)"
    by (cases "pbd_type dst"; cases srcType) (simp_all add: select_reshaper_def)
  have "image_rows fo dT sT sw dcc w sb db 0 0 src dest m = Some m" for sw w sb db src dest
    by (simp add: image_rows.simps [of fo dT sT sw dcc w sb db 0 0])
  then show ?thesis
    by (simp add: reshapeImage_dispatch_def f s reshapeImage_def to_size_t_0 Let_def)
qed

text \<open>An RGBA destination of bytes, a source of floats, height 0.\<close>

theorem dispatch_height_zero_succeeds_witness:
  "pbd_format example_descriptor \<in> {RGB, RGBA}
     \<and> pbd_type example_descriptor \<in> {UBYTE, FLOAT, INT32, UINT}
     \<and> FLOAT \<in> {UBYTE, FLOAT, INT32, UINT}
     \<and> reshapeImage_dispatch example_float_ops example_computeDataSize example_descriptor FLOAT
          0 16 1 0 False example_pixel = Some (True, example_pixel)"
  using dispatch_height_zero_succeeds [of example_descriptor FLOAT example_float_ops example_computeDataSize 0 16 1 False
      example_pixel]
  by (simp add: example_descriptor_def)

section \<open>The generic reshape, verified\<close>

text \<open>
  C6, for buffers that do not overlap and channel counts that fit the \<open>int\<close> holding
  \<open>minChannelCount\<close>. Let
  \<open>srcChannelCount\<close> be positive, let the smaller of the two channel counts be below
  \<open>2^31\<close>, and let the source pixels not overlap the destination pixels. Then the
  generic reshape returns; with \<open>n = numSrcBytes / (componentSize * srcChannelCount)\<close>
  rounded down, for each of the \<open>n\<close> pixels the first \<open>min(srcChannelCount,
  dstChannelCount)\<close> destination channels hold the source channels of the same index,
  unchanged, every destination channel with index from \<open>srcChannelCount\<close> up to
  \<open>dstChannelCount\<close> holds the maximum value of the component type, source pixel \<open>p\<close>
  starts \<open>p * srcChannelCount\<close> components after \<open>src\<close> and destination pixel \<open>p\<close>
  starts \<open>p * dstChannelCount\<close> components after \<open>dest\<close>, and no byte outside the
  \<open>n\<close> destination pixels changes.
\<close>

theorem reshape_copies_and_fills:
  assumes "0 < srcChannelCount" and "min srcChannelCount dstChannelCount < 2 ^ 31"
    and "src + spec_pixel_count cT srcChannelCount numSrcBytes * (srcChannelCount * sizeof cT) \<le> dest
           \<or> dest + spec_pixel_count cT srcChannelCount numSrcBytes * (dstChannelCount * sizeof cT)
                \<le> src"
  shows "\<exists>m'. reshape cT srcChannelCount dstChannelCount dest src numSrcBytes m = Some m'
     \<and> (\<forall>p < spec_pixel_count cT srcChannelCount numSrcBytes.
          \<forall>k < min srcChannelCount dstChannelCount.
            load cT m' (dest + (p * dstChannelCount + k) * sizeof cT)
              = load cT m (src + (p * srcChannelCount + k) * sizeof cT))
     \<and> (\<forall>p < spec_pixel_count cT srcChannelCount numSrcBytes.
          \<forall>k. srcChannelCount \<le> k \<and> k < dstChannelCount \<longrightarrow>
            load cT m' (dest + (p * dstChannelCount + k) * sizeof cT) = getMaxValue cT)
     \<and> (\<forall>x. x < dest
             \<or> dest + spec_pixel_count cT srcChannelCount numSrcBytes * (dstChannelCount * sizeof cT)
                  \<le> x
           \<longrightarrow> m' x = m x)"
proof -
  let ?n = "spec_pixel_count cT srcChannelCount numSrcBytes"
  let ?mcc = "min srcChannelCount dstChannelCount"
  let ?m' = "reshape_words cT srcChannelCount dstChannelCount ?mcc 0 ?n src dest m"
  have run: "reshape cT srcChannelCount dstChannelCount dest src numSrcBytes m = Some ?m'"
    using assms(1,2) by (rule reshape_unfold)
  have sep: "src + (?n - 0) * (srcChannelCount * sizeof cT) \<le> dest
              \<or> dest + (?n - 0) * (dstChannelCount * sizeof cT) \<le> src"
    using assms(3) by simp
  have a: "load cT ?m' (dest + (p * dstChannelCount + k) * sizeof cT)
             = load cT m (src + (p * srcChannelCount + k) * sizeof cT)"
    if "p < ?n" "k < ?mcc" for p k
    by (rule reshape_words_copied [OF _ _ sep]) (use that in simp_all)
  have b: "load cT ?m' (dest + (p * dstChannelCount + k) * sizeof cT) = getMaxValue cT"
    if "p < ?n" "srcChannelCount \<le> k" "k < dstChannelCount" for p k
    by (rule reshape_words_filled) (use that in simp_all)
  have c: "?m' x = m x"
    if "x < dest \<or> dest + ?n * (dstChannelCount * sizeof cT) \<le> x" for x
    by (rule reshape_words_outside) (use that in simp_all)
  from run a b c show ?thesis by blast
qed

text \<open>
  Two RGB pixels (10, 20, 30) and (40, 50, 60) of one byte per channel expanded to RGBA:
  channel 3 of both destination pixels is 255.
\<close>

theorem reshape_copies_and_fills_witness:
  "(0::nat) < 3 \<and> min 3 4 < (2::nat) ^ 31
     \<and> ((0::nat) + spec_pixel_count U8 3 6 * (3 * sizeof U8) \<le> 16
          \<or> 16 + spec_pixel_count U8 3 6 * (4 * sizeof U8) \<le> 0)
     \<and> (\<exists>m'. reshape U8 3 4 16 0 6 example_rgb = Some m'
           \<and> load U8 m' 16 = VU8 10 \<and> load U8 m' 22 = VU8 60
           \<and> load U8 m' 19 = VU8 255 \<and> load U8 m' 23 = VU8 255
           \<and> m' 24 = example_rgb 24)"
proof -
  have n: "spec_pixel_count U8 3 6 = 2"
    by (simp add: spec_pixel_count_def)
  have h: "(0::nat) < 3" "min 3 4 < (2::nat) ^ 31"
    "(0::nat) + spec_pixel_count U8 3 6 * (3 * sizeof U8) \<le> 16
       \<or> 16 + spec_pixel_count U8 3 6 * (4 * sizeof U8) \<le> 0"
    by (simp_all add: n)
  from reshape_copies_and_fills [OF h, of example_rgb] obtain m' where
    run: "reshape U8 3 4 16 0 6 example_rgb = Some m'"
    and a: "\<forall>p < spec_pixel_count U8 3 6. \<forall>k < min 3 4.
              load U8 m' (16 + (p * 4 + k) * sizeof U8) = load U8 example_rgb (0 + (p * 3 + k) * sizeof U8)"
    and b: "\<forall>p < spec_pixel_count U8 3 6. \<forall>k. 3 \<le> k \<and> k < 4 \<longrightarrow>
              load U8 m' (16 + (p * 4 + k) * sizeof U8) = getMaxValue U8"
    and c: "\<forall>x. x < 16 \<or> 16 + spec_pixel_count U8 3 6 * (4 * sizeof U8) \<le> x
              \<longrightarrow> m' x = example_rgb x"
    by blast
  from a [rule_format, of 0 0] have 1: "load U8 m' 16 = VU8 10"
    by (simp add: n load_U8 example_rgb_def)
  from a [rule_format, of 1 2] have 2: "load U8 m' 22 = VU8 60"
    by (simp add: n load_U8 example_rgb_def)
  from b [rule_format, of 0 3] have 3: "load U8 m' 19 = VU8 255" by (simp add: n)
  from b [rule_format, of 1 3] have 4: "load U8 m' 23 = VU8 255" by (simp add: n)
  from c [rule_format, of 24] have 5: "m' 24 = example_rgb 24" by (simp add: n)
  from h run 1 2 3 4 5 show ?thesis by blast
qed

text \<open>
  Without its three conditions the statement fails. Expanding two RGB pixels
  (10, 20, 30) and (40, 50, 60) of bytes to RGBA in place leaves
  (10, 20, 30, 255) and (255, 255, 255, 255): channel 0 of the second destination pixel
  holds 255 where the second source pixel had 40. With \<open>srcChannelCount\<close> 0 the pixel
  count divides by zero. With \<open>2^32\<close> source and destination channels of one byte and
  \<open>2^32\<close> source bytes there is one pixel to process, \<open>minChannelCount\<close> is 0 after
  the conversion to \<open>int\<close>, and the call leaves the memory as it was, the first
  destination channel still 0 where the first source channel is 7.
\<close>

theorem reshape_fails_outside_preconditions:
  "reshape U8 3 4 0 0 6 example_rgb = Some example_rgb_after
     \<and> spec_pixel_count U8 3 6 = 2
     \<and> load U8 example_rgb (0 + (1 * 3 + 0) * sizeof U8) = VU8 40
     \<and> load U8 example_rgb_after (0 + (1 * 4 + 0) * sizeof U8) = VU8 255
     \<and> reshape U8 0 4 16 0 6 example_rgb = None
     \<and> spec_pixel_count U8 4294967296 4294967296 = 1
     \<and> reshape U8 4294967296 4294967296 4294967296 0 4294967296 example_wide = Some example_wide
     \<and> load U8 example_wide 0 = VU8 7
     \<and> load U8 example_wide 4294967296 = VU8 0"
proof -
  have f: "fill_channels U8 v outp 4294967296 4294967296 m = m" for v outp m
    by (simp add: fill_channels.simps [of U8 v outp 4294967296])
  have c: "reshape_copy U8 inp outp 0 0 m = m" for inp outp m
    by (simp add: reshape_copy.simps [of U8 inp outp 0 0])
  have w1: "reshape_words U8 4294967296 4294967296 0 n n inp outp m = m" for n inp outp m
    by (simp add: reshape_words.simps [of U8 4294967296 4294967296 0 n n])
  have w: "reshape_words U8 4294967296 4294967296 0 0 (Suc 0) inp outp m = m" for inp outp m
    by (simp add: reshape_words.simps [of U8 4294967296 4294967296 0 0 "Suc 0"] f c w1)
  have wide: "reshape U8 4294967296 4294967296 4294967296 0 4294967296 example_wide
                = Some example_wide"
    by (simp add: reshape_def to_int_2_32 w)
  show ?thesis
    unfolding reshape_inplace_run wide
    by (simp add: spec_pixel_count_def reshape_zero_channels load_U8 example_wide_def
        example_rgb_def example_rgb_after_def)
qed

end
